theory Spec2Isabelle
  imports Main "HOL-Library.Finite_Map" "HOL-Library.Sublist"
begin

section \<open>Data model of the session controller (component \<open>App\<close>)\<close>

text \<open>
  The controller keeps its state in React state cells. The cells the verified handlers
  read or write are collected in one record; every handler is a function from the record
  at the time of the user action to the record after all its updates have been applied.

  \<^item> \<open>originalImages\<close> is a JavaScript array of encoded images: a list.
  \<^item> \<open>generatedImages\<close> is a \<^verbatim>\<open>Record<number, string>\<close> object whose keys are array
    indices. Such an object is a finite map from indices to images. \<open>Object.keys\<close> lists
    integer keys in ascending numeric order, which is \<open>sorted_list_of_fset\<close> of the
    domain; \<open>parseInt\<close> of a listed key is the index itself.
  \<^item> \<open>number | null\<close> and \<open>string | null\<close> are options.
  \<^item> Texts are \<open>string\<close>s, that is lists of 8-bit characters.
\<close>

datatype AppState = initial | generating | ready

datatype ChatMode = design | general

datatype ImageQuality = standard | high

datatype Role = user | model

text \<open>The fields \<open>id\<close>, \<open>role\<close> and \<open>text\<close> of a chat message, prefixed.\<close>

record ChatMessage =
  msg_id :: string
  msg_role :: Role
  msg_text :: string

record App =
  originalImages :: "string list"
  generatedImages :: "(nat, string) fmap"
  selectedResultIndex :: "nat option"
  appState :: AppState
  generationProgress :: "(nat \<times> nat) option"
  selectedStyle :: "string option"
  selectedColorPalette :: "string option"
  selectedAtmosphere :: "string option"
  selectedQuality :: ImageQuality
  error :: "string option"
  chatMessages :: "ChatMessage list"
  isChatLoading :: bool
  chatMode :: ChatMode
  prefsSavedFeedback :: bool
  showProcess :: bool

text \<open>The \<open>useState\<close> defaults: the controller's state when it is mounted.\<close>

definition initialApp :: App where
  "initialApp =
     \<lparr>originalImages = [], generatedImages = fmempty, selectedResultIndex = None,
      appState = initial, generationProgress = None, selectedStyle = None,
      selectedColorPalette = None, selectedAtmosphere = None, selectedQuality = standard,
      error = None, chatMessages = [], isChatLoading = False, chatMode = design,
      prefsSavedFeedback = False, showProcess = True\<rparr>"

text \<open>
  JavaScript truthiness of a \<open>string | null\<close> (or \<open>string | undefined\<close>) value: \<open>null\<close>,
  \<open>undefined\<close> and the empty string are falsy.
\<close>

definition truthy :: "string option \<Rightarrow> bool" where
  "truthy v = (case v of None \<Rightarrow> False | Some s \<Rightarrow> s \<noteq> [])"

section \<open>The external service (\<open>services/geminiService\<close>)\<close>

text \<open>
  The service is outside the program. A call is recorded with the function called and its
  arguments; the service is a parameter \<open>svc\<close>, where \<open>svc n c\<close> is the outcome of the call
  \<open>c\<close> when it is the \<open>n\<close>-th call (from 0) awaited by the running handler: \<open>Some\<close> of the
  resolved text or image, \<open>None\<close> when the promise rejects.
\<close>

datatype call =
    generateImageWithStyle string string "string option" "string option" ImageQuality
  | applyStyleFromReference string string ImageQuality
  | refineImageWithText string string ImageQuality
  | getChatResponse string
  | getShoppingSuggestions string string

type_synonym service = "nat \<Rightarrow> call \<Rightarrow> string option"

section \<open>Removing an uploaded image (\<open>handleRemoveImage\<close>)\<close>

text \<open>\<open>current.filter((_, index) => index !== indexToRemove)\<close>\<close>

definition filter_index :: "nat \<Rightarrow> 'a list \<Rightarrow> 'a list" where
  "filter_index indexToRemove current =
     map snd (filter (\<lambda>(index, _). index \<noteq> indexToRemove) (enumerate 0 current))"

text \<open>
  One round of the \<open>forEach\<close> over the keys: a key above the removed index is copied one
  place down and deleted. A listed key that the object no longer holds would read
  \<open>undefined\<close>; the round then leaves the object as it is (the case does not arise, since
  the keys are visited in ascending order and a round only touches its own key and the one
  below).
\<close>

definition shift_key :: "nat \<Rightarrow> (nat, string) fmap \<Rightarrow> nat \<Rightarrow> (nat, string) fmap" where
  "shift_key indexToRemove newGenerated key =
     (if key > indexToRemove then
        (case fmlookup newGenerated key of
           Some v \<Rightarrow> fmdrop key (fmupd (key - 1) v newGenerated)
         | None \<Rightarrow> newGenerated)
      else newGenerated)"

definition remove_generated :: "nat \<Rightarrow> (nat, string) fmap \<Rightarrow> (nat, string) fmap" where
  "remove_generated indexToRemove current =
     (let newGenerated = fmdrop indexToRemove current
      in foldl (shift_key indexToRemove) newGenerated
           (sorted_list_of_fset (fmdom newGenerated)))"

text \<open>
  The selection is re-aligned with a truthiness test: \<open>selectedResultIndex && \<dots>\<close> is
  false for \<open>null\<close> and for index \<open>0\<close>.
\<close>

definition realign_selection :: "nat \<Rightarrow> nat option \<Rightarrow> nat option" where
  "realign_selection indexToRemove sel =
     (if sel = Some indexToRemove then None
      else (case sel of
              None \<Rightarrow> sel
            | Some s \<Rightarrow> if s \<noteq> 0 \<and> s > indexToRemove then Some (s - 1) else sel))"

definition handleRemoveImage :: "nat \<Rightarrow> App \<Rightarrow> App" where
  "handleRemoveImage indexToRemove st =
     st\<lparr>originalImages := filter_index indexToRemove (originalImages st),
        generatedImages := remove_generated indexToRemove (generatedImages st),
        selectedResultIndex := realign_selection indexToRemove (selectedResultIndex st)\<rparr>"

section \<open>Batch generation (\<open>handleGenerateClick\<close>)\<close>

text \<open>
  What a run does, in order: a progress update, an awaited service call, or a commit
  \<open>setGeneratedImages\<close> of one image at one index.
\<close>

datatype event =
    setGenerationProgress nat nat
  | await call
  | setGeneratedImages nat string

text \<open>
  The \<open>for\<close> loop over the images from index \<open>i\<close>. The result is \<open>Inr\<close> when the loop
  ends, \<open>Inl\<close> when an awaited call rejects (the exception leaves the loop); both carry the
  state and the events so far.
\<close>

function apply_loop ::
  "service \<Rightarrow> string list \<Rightarrow> string \<Rightarrow> ImageQuality \<Rightarrow> nat \<Rightarrow> App \<times> event list
     \<Rightarrow> (App \<times> event list) + (App \<times> event list)" where
  "apply_loop svc imgs referenceImage q i (st, tr) =
     (if i < length imgs then
        (let st1 = st\<lparr>generationProgress := Some (i + 1, length imgs)\<rparr>;
             c = applyStyleFromReference (imgs ! i) referenceImage q;
             tr1 = tr @ [setGenerationProgress (i + 1) (length imgs), await c]
         in case svc i c of
              None \<Rightarrow> Inl (st1, tr1)
            | Some styledImage \<Rightarrow>
                apply_loop svc imgs referenceImage q (i + 1)
                  (st1\<lparr>generatedImages := fmupd i styledImage (generatedImages st1)\<rparr>,
                   tr1 @ [setGeneratedImages i styledImage]))
      else Inr (st, tr))"
  by pat_completeness auto
termination
  by (relation "measure (\<lambda>(svc, imgs, referenceImage, q, i, s). length imgs - i)") auto

declare apply_loop.simps [simp del]

text \<open>The body of the \<open>try\<close> block, for a non-empty \<open>originalImages\<close> and the style \<open>styleLabel\<close>.\<close>

definition generate_try ::
  "service \<Rightarrow> string \<Rightarrow> App \<Rightarrow> (App \<times> event list) + (App \<times> event list)" where
  "generate_try svc styleLabel st =
     (let imgs = originalImages st;
          c = generateImageWithStyle (imgs ! 0) styleLabel (selectedColorPalette st)
                (selectedAtmosphere st) (selectedQuality st)
      in if length imgs = 1 then
           (let st1 = st\<lparr>generationProgress := Some (1, 1)\<rparr>;
                tr1 = [setGenerationProgress 1 1, await c]
            in case svc 0 c of
                 None \<Rightarrow> Inl (st1, tr1)
               | Some image' \<Rightarrow>
                   Inr (st1\<lparr>generatedImages := fmupd 0 image' fmempty\<rparr>,
                        tr1 @ [setGeneratedImages 0 image']))
         else
           (let st1 = st\<lparr>generationProgress := Some (1, length imgs)\<rparr>;
                tr1 = [setGenerationProgress 1 (length imgs), await c]
            in case svc 0 c of
                 None \<Rightarrow> Inl (st1, tr1)
               | Some referenceImage \<Rightarrow>
                   apply_loop svc imgs referenceImage (selectedQuality st) 1
                     (st1\<lparr>generatedImages := fmupd 0 referenceImage (generatedImages st1)\<rparr>,
                      tr1 @ [setGeneratedImages 0 referenceImage])))"

definition handleGenerateClick :: "service \<Rightarrow> App \<Rightarrow> App \<times> event list" where
  "handleGenerateClick svc st =
     (case selectedStyle st of
        None \<Rightarrow> (st, [])
      | Some styleLabel \<Rightarrow>
          if length (originalImages st) = 0 \<or> styleLabel = [] then (st, [])
          else
            (let st0 = st\<lparr>appState := generating, error := None, generatedImages := fmempty,
                          chatMessages := [], chatMode := design, selectedResultIndex := None\<rparr>
             in case generate_try svc styleLabel st0 of
                  Inr (st1, tr) \<Rightarrow>
                    (st1\<lparr>appState := ready, generationProgress := None\<rparr>, tr)
                | Inl (st1, tr) \<Rightarrow>
                    (st1\<lparr>error := Some ''Failed to generate all images. Please try again.'',
                         appState := initial, generationProgress := None\<rparr>, tr)))"

text \<open>
  For stating what a run does: the call of step \<open>i\<close> of a batch (the style call for
  image 0, the reference call against \<open>referenceImage\<close> for a later image), the events of
  a step whose call resolved to \<open>r\<close>, the awaited calls of a list of events, and the
  images committed for the steps below \<open>f\<close> when step \<open>j\<close> resolved to \<open>res j\<close>.
\<close>

definition batch_call :: "App \<Rightarrow> string \<Rightarrow> string \<Rightarrow> nat \<Rightarrow> call" where
  "batch_call st styleLabel referenceImage i =
     (if i = 0 then
        generateImageWithStyle (originalImages st ! 0) styleLabel (selectedColorPalette st)
          (selectedAtmosphere st) (selectedQuality st)
      else applyStyleFromReference (originalImages st ! i) referenceImage (selectedQuality st))"

definition step_events :: "nat \<Rightarrow> call \<Rightarrow> string \<Rightarrow> nat \<Rightarrow> event list" where
  "step_events n c r i = [setGenerationProgress (i + 1) n, await c, setGeneratedImages i r]"

fun calls_of :: "event list \<Rightarrow> call list" where
  "calls_of [] = []"
| "calls_of (await c # es) = c # calls_of es"
| "calls_of (e # es) = calls_of es"

definition committed :: "(nat \<Rightarrow> string) \<Rightarrow> nat \<Rightarrow> (nat, string) fmap" where
  "committed res f = foldl (\<lambda>g j. fmupd j (res j) g) fmempty [0..<f]"

text \<open>A service that is down: it rejects every call.\<close>

definition rejecting :: service where
  "rejecting n c = None"

section \<open>Chat (\<open>ChatInterface.handleSubmit\<close>, \<open>handleSendMessage\<close>)\<close>

text \<open>
  String operations of the host language, on 8-bit characters: \<open>toLowerCase\<close> maps the
  letters \<open>A\<close> to \<open>Z\<close> to \<open>a\<close> to \<open>z\<close> and leaves every other character, \<open>trim\<close> removes
  leading and trailing blanks (space, tab, line feed, vertical tab, form feed, carriage
  return), \<open>includes\<close> (here \<open>str_includes\<close>) tests for a contiguous occurrence.
\<close>

definition toLowerCase :: "string \<Rightarrow> string" where
  "toLowerCase s =
     map (\<lambda>c. case map_of (zip ''ABCDEFGHIJKLMNOPQRSTUVWXYZ'' ''abcdefghijklmnopqrstuvwxyz'') c of
               Some l \<Rightarrow> l
             | None \<Rightarrow> c) s"

definition isWhiteSpace :: "char \<Rightarrow> bool" where
  "isWhiteSpace c = (c \<in> set [CHR 0x09, CHR 0x0A, CHR 0x0B, CHR 0x0C, CHR 0x0D, CHR '' ''])"

definition trim :: "string \<Rightarrow> string" where
  "trim s = rev (dropWhile isWhiteSpace (rev (dropWhile isWhiteSpace s)))"

fun str_includes :: "string \<Rightarrow> string \<Rightarrow> bool" where
  "str_includes [] t = (t = [])"
| "str_includes (c # cs) t = (prefix t (c # cs) \<or> str_includes cs t)"

definition shoppingKeywords :: "string list" where
  "shoppingKeywords = [''shop'', ''buy'', ''link'', ''find'', ''product'', ''item'']"

text \<open>
  \<open>handleSubmit\<close> of the chat form: the arguments passed to \<open>onSendMessage\<close>, or \<open>None\<close>
  when the guard stops the submission. (The input field is cleared after a send.)
\<close>

definition handleSubmit :: "string \<Rightarrow> bool \<Rightarrow> bool \<Rightarrow> (string \<times> bool) option" where
  "handleSubmit input isLoading isDesignMode =
     (if trim input \<noteq> [] \<and> \<not> isLoading then
        (let isShoppingQuery =
               isDesignMode \<and> list_ex (\<lambda>kw. str_includes (toLowerCase input) kw) shoppingKeywords
         in Some (input, isShoppingQuery))
      else None)"

text \<open>\<open>Date.now().toString()\<close>: the decimal digits of a millisecond count.\<close>

function toString :: "nat \<Rightarrow> string" where
  "toString n =
     (if n < 10 then [''0123456789'' ! n]
      else toString (n div 10) @ [''0123456789'' ! (n mod 10)])"
  by pat_completeness auto
termination
  by (relation "measure (\<lambda>n. n)") auto

declare toString.simps [simp del]

text \<open>
  The \<open>try\<close> block of \<open>handleSendMessage\<close>, entered with the state \<open>st\<close> that already holds
  the user's message; \<open>baseImage\<close> was read from the state the handler started in. It gives
  the call it awaited and, when the call resolved, the state and the model's text.
\<close>

definition send_try ::
  "service \<Rightarrow> App \<Rightarrow> nat \<Rightarrow> string option \<Rightarrow> string \<Rightarrow> bool \<Rightarrow> call \<times> (App \<times> string) option" where
  "send_try svc st sel baseImage message isShoppingQuery =
     (case (if chatMode st = design \<and> truthy baseImage then baseImage else None) of
        Some base \<Rightarrow>
          if isShoppingQuery then
            (let c = getShoppingSuggestions base message
             in (c, map_option (\<lambda>modelResponseText. (st, modelResponseText)) (svc 0 c)))
          else
            (let c = refineImageWithText base message (selectedQuality st)
             in (c, map_option
                  (\<lambda>refinedImage.
                     (st\<lparr>generatedImages := fmupd sel refinedImage (generatedImages st)\<rparr>,
                      ''I've updated the selected design. What do you think?''))
                  (svc 0 c)))
      | None \<Rightarrow>
          (let c = getChatResponse message
           in (c, map_option (\<lambda>modelResponseText. (st, modelResponseText)) (svc 0 c))))"

text \<open>
  \<open>handleSendMessage\<close>: the state after the handler and the calls it awaited. \<open>now\<close> and
  \<open>now'\<close> are the clock readings when the user's and the model's message are built.
\<close>

definition handleSendMessage ::
  "service \<Rightarrow> nat \<Rightarrow> nat \<Rightarrow> App \<Rightarrow> string \<Rightarrow> bool \<Rightarrow> App \<times> call list" where
  "handleSendMessage svc now now' st message isShoppingQuery =
     (case selectedResultIndex st of
        None \<Rightarrow> (st, [])
      | Some sel \<Rightarrow>
          (let newUserMessage = \<lparr>msg_id = toString now, msg_role = user, msg_text = message\<rparr>;
               st1 = st\<lparr>chatMessages := chatMessages st @ [newUserMessage],
                        isChatLoading := True, error := None\<rparr>;
               baseImage = fmlookup (generatedImages st) sel
           in case send_try svc st1 sel baseImage message isShoppingQuery of
                (c, Some (st2, modelResponseText)) \<Rightarrow>
                  (let newModelMessage =
                         \<lparr>msg_id = toString (now' + 1), msg_role = model,
                          msg_text = modelResponseText\<rparr>
                   in (st2\<lparr>chatMessages := chatMessages st2 @ [newModelMessage],
                           isChatLoading := False\<rparr>, [c]))
              | (c, None) \<Rightarrow>
                  (let errorMessage =
                         \<lparr>msg_id = toString (now' + 1), msg_role = model,
                          msg_text = ''Sorry, I couldn't process that request. Please try again.''\<rparr>
                   in (st1\<lparr>chatMessages := chatMessages st1 @ [errorMessage],
                           isChatLoading := False\<rparr>, [c]))))"

text \<open>
  The chat form as \<open>App\<close> mounts it: \<open>isLoading\<close> is \<open>isChatLoading\<close>, \<open>isDesignMode\<close> is
  \<open>chatMode === 'design'\<close>, and \<open>onSendMessage\<close> is \<open>handleSendMessage\<close>.
\<close>

definition submitChat :: "service \<Rightarrow> nat \<Rightarrow> nat \<Rightarrow> App \<Rightarrow> string \<Rightarrow> App \<times> call list" where
  "submitChat svc now now' st input =
     (case handleSubmit input (isChatLoading st) (chatMode st = design) of
        None \<Rightarrow> (st, [])
      | Some (message, isShoppingQuery) \<Rightarrow>
          handleSendMessage svc now now' st message isShoppingQuery)"

text \<open>
  For stating what a send does to the transcript: the text of the model's message for
  the awaited call and its outcome, and a transcript made of pairs of a user's message
  followed by a model's message.
\<close>

definition reply_text :: "call \<Rightarrow> string option \<Rightarrow> string" where
  "reply_text c outcome =
     (case outcome of
        None \<Rightarrow> ''Sorry, I couldn't process that request. Please try again.''
      | Some modelResponseText \<Rightarrow>
          (case c of
             refineImageWithText baseImage message q \<Rightarrow>
               ''I've updated the selected design. What do you think?''
           | _ \<Rightarrow> modelResponseText))"

fun alternates :: "ChatMessage list \<Rightarrow> bool" where
  "alternates [] = True"
| "alternates [m] = False"
| "alternates (u # m # ms) = (msg_role u = user \<and> msg_role m = model \<and> alternates ms)"

section \<open>Rendering a chat message (\<open>ParsedMessage\<close>)\<close>

text \<open>
  The regular expression \<^verbatim>\<open>/- \*\*\[(.*?)\]\((.*?)\)\*\* - (.*)/g\<close> is three
  literal strings with two lazy groups between them and a greedy group at the end; the dot
  matches every character except a line terminator. A lazy group is tried with the fewest
  characters first and takes one more character whenever the rest of the pattern does not
  match.
\<close>

definition isLineTerminator :: "char \<Rightarrow> bool" where
  "isLineTerminator c = (c = CHR 0x0A \<or> c = CHR 0x0D)"

text \<open>After the second group's opening: the url, lazily, up to \<^verbatim>\<open>)** - \<close>.\<close>

fun match_url :: "string \<Rightarrow> (string \<times> string) option" where
  "match_url [] = None"
| "match_url (c # cs) =
     (if prefix '')** - '' (c # cs) then Some ([], drop 6 (c # cs))
      else if isLineTerminator c then None
      else map_option (\<lambda>(url, rest). (c # url, rest)) (match_url cs))"

text \<open>After \<^verbatim>\<open>- **[\<close>: the name, lazily, up to \<^verbatim>\<open>](\<close> followed by a url.\<close>

fun match_name :: "string \<Rightarrow> (string \<times> string \<times> string) option" where
  "match_name [] = None"
| "match_name (c # cs) =
     (case (if prefix '']('' (c # cs) then match_url (drop 2 (c # cs)) else None) of
        Some (url, rest) \<Rightarrow> Some ([], url, rest)
      | None \<Rightarrow>
          if isLineTerminator c then None
          else map_option (\<lambda>(name, url, rest). (c # name, url, rest)) (match_name cs))"

text \<open>
  A match that starts at the head of the string: name, url, description (the rest of the
  line) and what follows the match.
\<close>

definition match_here :: "string \<Rightarrow> (string \<times> string \<times> string \<times> string) option" where
  "match_here s =
     (if prefix ''- **['' s then
        map_option
          (\<lambda>(name, url, rest).
             (name, url, takeWhile (\<lambda>c. \<not> isLineTerminator c) rest,
              dropWhile (\<lambda>c. \<not> isLineTerminator c) rest))
          (match_name (drop 5 s))
      else None)"

text \<open>
  \<open>shoppingLinkRegex.exec\<close> on the text from \<open>lastIndex\<close> on: the leftmost match, with
  the text before it (from \<open>lastIndex\<close> to \<open>match.index\<close>) and the text after it (from the
  new \<open>lastIndex\<close>).
\<close>

fun exec :: "string \<Rightarrow> (string \<times> string \<times> string \<times> string \<times> string) option" where
  "exec [] = None"
| "exec (c # cs) =
     (case match_here (c # cs) of
        Some (name, url, description, rest) \<Rightarrow> Some ([], name, url, description, rest)
      | None \<Rightarrow>
          map_option (\<lambda>(lead, m). (c # lead, m)) (exec cs))"

text \<open>A match splits the text it was found in; what follows it is shorter than the text.\<close>

lemma match_url_decomp:
  "match_url s = Some (url, rest) \<Longrightarrow> s = url @ '')** - '' @ rest"
proof (induction s arbitrary: url)
  case Nil
  then show ?case by simp
next
  case (Cons c cs)
  show ?case
  proof (cases "prefix '')** - '' (c # cs)")
    case True
    then obtain t where t: "c # cs = '')** - '' @ t" by (rule prefixE)
    then have "drop 6 (c # cs) = t" by simp
    with Cons.prems True have "url = []" "rest = t" by auto
    with t show ?thesis by simp
  next
    case False
    with Cons.prems obtain url' where "match_url cs = Some (url', rest)" "url = c # url'"
      by (auto split: if_splits)
    with Cons.IH show ?thesis by simp
  qed
qed

lemma match_name_decomp:
  "match_name s = Some (name, url, rest) \<Longrightarrow> s = name @ '']('' @ url @ '')** - '' @ rest"
proof (induction s arbitrary: name)
  case Nil
  then show ?case by simp
next
  case (Cons c cs)
  let ?attempt = "if prefix '']('' (c # cs) then match_url (drop 2 (c # cs)) else None"
  show ?case
  proof (cases ?attempt)
    case None
    with Cons.prems obtain name' where "match_name cs = Some (name', url, rest)" "name = c # name'"
      by (auto split: if_splits)
    with Cons.IH show ?thesis by simp
  next
    case (Some a)
    with Cons.prems have a: "a = (url, rest)" "name = []" by (auto split: prod.splits)
    from Some a have p: "prefix '']('' (c # cs)" and m: "match_url (drop 2 (c # cs)) = Some (url, rest)"
      by (auto split: if_splits)
    from p obtain t where t: "c # cs = '']('' @ t" by (rule prefixE)
    then have "drop 2 (c # cs) = t" by simp
    with m have "match_url t = Some (url, rest)" by simp
    then have "t = url @ '')** - '' @ rest" by (rule match_url_decomp)
    with t a show ?thesis by simp
  qed
qed

lemma match_here_decomp:
  "match_here s = Some (name, url, description, rest) \<Longrightarrow>
     s = ''- **['' @ name @ '']('' @ url @ '')** - '' @ description @ rest"
proof -
  assume a: "match_here s = Some (name, url, description, rest)"
  then have p: "prefix ''- **['' s" by (auto simp: match_here_def split: if_splits)
  with a obtain r where m: "match_name (drop 5 s) = Some (name, url, r)"
    and d: "description = takeWhile (\<lambda>c. \<not> isLineTerminator c) r"
           "rest = dropWhile (\<lambda>c. \<not> isLineTerminator c) r"
    by (auto simp: match_here_def)
  from d have r: "r = description @ rest" by simp
  from p obtain t where t: "s = ''- **['' @ t" by (rule prefixE)
  then have "drop 5 s = t" by simp
  with m have "match_name t = Some (name, url, r)" by simp
  then have "t = name @ '']('' @ url @ '')** - '' @ r" by (rule match_name_decomp)
  with t r show ?thesis by simp
qed

lemma exec_decomp:
  "exec s = Some (lead, name, url, description, rest) \<Longrightarrow>
     s = lead @ ''- **['' @ name @ '']('' @ url @ '')** - '' @ description @ rest"
proof (induction s arbitrary: lead)
  case Nil
  then show ?case by simp
next
  case (Cons c cs)
  show ?case
  proof (cases "match_here (c # cs)")
    case None
    with Cons.prems obtain b where "exec cs = Some (b, name, url, description, rest)" "lead = c # b"
      by auto
    with Cons.IH show ?thesis by simp
  next
    case (Some a)
    with Cons.prems have "a = (name, url, description, rest)" "lead = []"
      by (auto split: prod.splits)
    with Some match_here_decomp [of "c # cs" name url description rest] show ?thesis by simp
  qed
qed

lemma exec_length: "exec s = Some (lead, name, url, description, rest) \<Longrightarrow> length rest < length s"
  by (drule exec_decomp) simp

text \<open>The entries of \<open>parts\<close>: a run of the text, or a \<open>ShoppingItem\<close> element.\<close>

datatype part = Str string | Item string string string

text \<open>The rendered children: a line in a \<open>span\<close> followed by \<open>br\<close>, or a shopping item.\<close>

datatype node = Span string | ShoppingItem string string string

text \<open>
  The \<open>while\<close> loop with the part pushed after it, on the text from \<open>lastIndex\<close> on.
\<close>

function parts_loop :: "string \<Rightarrow> part list" where
  "parts_loop s =
     (case exec s of
        None \<Rightarrow> (if s \<noteq> [] then [Str s] else [])
      | Some (lead, name, url, description, rest) \<Rightarrow>
          (if lead \<noteq> [] then [Str lead] else [])
            @ Item name url description # parts_loop rest)"
  by pat_completeness auto
termination
  by (relation "measure length") (auto dest: exec_length)

declare parts_loop.simps [simp del]

text \<open>\<open>split\<close> at the line feeds: the lines of a text; a text without line feed is one line.\<close>

fun split_lines :: "string \<Rightarrow> string list" where
  "split_lines [] = [[]]"
| "split_lines (c # cs) =
     (if c = CHR 0x0A then [] # split_lines cs
      else (case split_lines cs of
              l # ls \<Rightarrow> (c # l) # ls
            | [] \<Rightarrow> [[c]]))"

definition render_part :: "part \<Rightarrow> node list" where
  "render_part p =
     (case p of
        Str s \<Rightarrow> map Span (split_lines s)
      | Item name url description \<Rightarrow> [ShoppingItem name url description])"

text \<open>The children of the rendered message, in order (React keys are left out).\<close>

definition ParsedMessage :: "ChatMessage \<Rightarrow> node list" where
  "ParsedMessage message =
     (if msg_role message = user \<or> \<not> str_includes (msg_text message) ''- **['' then
        map Span (split_lines (msg_text message))
      else concat (map render_part (parts_loop (msg_text message))))"

text \<open>
  For stating what the parser does: the text a part stands for, the text of rendered
  lines joined by line feeds again, and the pattern of the specification, a bullet
  \<^verbatim>\<open>- **[NAME](URL)** - DESCRIPTION\<close> whose name and url stay on one line.
\<close>

definition part_source :: "part \<Rightarrow> string" where
  "part_source p =
     (case p of
        Str s \<Rightarrow> s
      | Item name url description \<Rightarrow>
          ''- **['' @ name @ '']('' @ url @ '')** - '' @ description)"

fun join_lines :: "string list \<Rightarrow> string" where
  "join_lines [] = []"
| "join_lines [l] = l"
| "join_lines (l # ls) = l @ CHR 0x0A # join_lines ls"

definition well_formed_match :: "string \<Rightarrow> bool" where
  "well_formed_match s =
     (\<exists>lead name url rest.
        s = lead @ ''- **['' @ name @ '']('' @ url @ '')** - '' @ rest
        \<and> \<not> list_ex isLineTerminator name \<and> \<not> list_ex isLineTerminator url)"

section \<open>Preferences (\<open>localStorage\<close>)\<close>

text \<open>
  The item stored under \<open>PREFERENCES_KEY\<close>, as \<open>JSON.parse\<close> reads it: an object whose
  four fields are a value or \<open>null\<close>, or a text that \<open>JSON.parse\<close> rejects.
  \<open>JSON.stringify\<close> followed by \<open>JSON.parse\<close> gives back an object of strings and \<open>null\<close>s
  as it was, so the stored item is kept in its parsed form.
\<close>

record savedPrefs =
  style :: "string option"
  colorPalette :: "string option"
  atmosphere :: "string option"
  quality :: "ImageQuality option"

datatype item = Unparsable | Parsed savedPrefs

type_synonym localStorage = "item option"

text \<open>The effect run when the controller is mounted.\<close>

definition loadPreferences :: "localStorage \<Rightarrow> App \<Rightarrow> App" where
  "loadPreferences storage st =
     (case storage of
        None \<Rightarrow> st
      | Some Unparsable \<Rightarrow> st
      | Some (Parsed savedPrefs) \<Rightarrow>
          (let st1 = (if truthy (style savedPrefs)
                      then st\<lparr>selectedStyle := style savedPrefs\<rparr> else st);
               st2 = (if truthy (colorPalette savedPrefs)
                      then st1\<lparr>selectedColorPalette := colorPalette savedPrefs\<rparr> else st1);
               st3 = (if truthy (atmosphere savedPrefs)
                      then st2\<lparr>selectedAtmosphere := atmosphere savedPrefs\<rparr> else st2)
           in case quality savedPrefs of
                Some q \<Rightarrow> st3\<lparr>selectedQuality := q\<rparr>
              | None \<Rightarrow> st3))"

text \<open>(The saved-feedback flag is switched off again by a timer two seconds later.)\<close>

definition handleSavePreferences :: "App \<times> localStorage \<Rightarrow> App \<times> localStorage" where
  "handleSavePreferences s =
     (case s of (st, storage) \<Rightarrow>
        (let prefs = \<lparr>style = selectedStyle st, colorPalette = selectedColorPalette st,
                      atmosphere = selectedAtmosphere st, quality = Some (selectedQuality st)\<rparr>
         in (st\<lparr>prefsSavedFeedback := True\<rparr>, Some (Parsed prefs))))"

definition handleClearPreferences :: "App \<times> localStorage \<Rightarrow> App \<times> localStorage" where
  "handleClearPreferences s =
     (case s of (st, storage) \<Rightarrow>
        (st\<lparr>selectedStyle := None, selectedColorPalette := None, selectedAtmosphere := None,
            selectedQuality := standard\<rparr>, None))"

section \<open>Image ingestion (\<open>processFiles\<close>)\<close>

text \<open>
  A file of the list: its MIME type and what reading it as a data URL gives, \<open>None\<close> when
  the reader reports an error.
\<close>

record File =
  file_type :: string
  readAsDataURL :: "string option"

text \<open>\<open>Promise.all\<close>: all results in order, or a rejection when one promise rejects.\<close>

fun Promise_all :: "'a option list \<Rightarrow> 'a list option" where
  "Promise_all [] = Some []"
| "Promise_all (p # ps) =
     (case p of
        None \<Rightarrow> None
      | Some v \<Rightarrow> map_option ((#) v) (Promise_all ps))"

definition resetGenerationState :: "App \<Rightarrow> App" where
  "resetGenerationState st =
     st\<lparr>generatedImages := fmempty, appState := initial, error := None, chatMessages := [],
        selectedResultIndex := None, showProcess := True\<rparr>"

definition processFiles :: "File list option \<Rightarrow> App \<Rightarrow> App" where
  "processFiles files st =
     (case files of
        None \<Rightarrow> st
      | Some fs \<Rightarrow>
          if length fs > 0 then
            (let imageFiles = filter (\<lambda>file. prefix ''image/'' (file_type file)) fs
             in if length imageFiles = 0 then st
                else (case Promise_all (map readAsDataURL imageFiles) of
                        Some newImages \<Rightarrow>
                          resetGenerationState
                            (st\<lparr>originalImages := originalImages st @ newImages\<rparr>)
                      | None \<Rightarrow>
                          st\<lparr>error := Some ''There was an error processing some of your images.''\<rparr>))
          else st)"

section \<open>Removal keeps uploads and results aligned\<close>

text \<open>The list loses the element at the removed index and nothing else.\<close>

lemma filter_enumerate_below:
  "k < n \<Longrightarrow> map snd (filter (\<lambda>(index, _). index \<noteq> k) (enumerate n xs)) = xs"
  by (induction xs arbitrary: n) auto

lemma filter_enumerate_from:
  "n \<le> k \<Longrightarrow> map snd (filter (\<lambda>(index, _). index \<noteq> k) (enumerate n xs))
     = take (k - n) xs @ drop (Suc (k - n)) xs"
proof (induction xs arbitrary: n)
  case Nil
  then show ?case by simp
next
  case (Cons x xs)
  show ?case
  proof (cases "n = k")
    case True
    then show ?thesis by (simp add: filter_enumerate_below)
  next
    case False
    with Cons.prems have lt: "Suc n \<le> k" by simp
    then have "k - n = Suc (k - Suc n)" by simp
    with Cons.IH [OF lt] False show ?thesis by simp
  qed
qed

lemma filter_index_take_drop: "filter_index k xs = take k xs @ drop (Suc k) xs"
  using filter_enumerate_from [of 0 k xs] by (simp add: filter_index_def)

lemma filter_index_nth:
  "j < length (filter_index k xs) \<Longrightarrow> filter_index k xs ! j = xs ! (if j < k then j else Suc j)"
  by (auto simp: filter_index_take_drop nth_append min_def split: if_splits)

lemma length_filter_index:
  "length (filter_index k xs) = (if k < length xs then length xs - 1 else length xs)"
  by (auto simp: filter_index_take_drop)

text \<open>
  The key loop, for any ascending list of keys of the object: a key above the removed
  index has moved one place down when its turn is over.
\<close>

lemma shift_key_lookup:
  "fmlookup g a = Some v \<Longrightarrow> a > k \<Longrightarrow>
   fmlookup (shift_key k g a) j = (if j = a then None else if Suc j = a then Some v else fmlookup g j)"
  by (auto simp: shift_key_def)

lemma shift_key_id: "\<not> a > k \<Longrightarrow> shift_key k g a = g"
  by (simp add: shift_key_def)

lemma shift_loop:
  "sorted ks \<Longrightarrow> distinct ks \<Longrightarrow> set ks \<subseteq> fset (fmdom g) \<Longrightarrow>
   fmlookup (foldl (shift_key k) g ks) j =
     (if Suc j \<in> set ks \<and> Suc j > k then fmlookup g (Suc j)
      else if j \<in> set ks \<and> j > k then None
      else fmlookup g j)"
proof (induction ks arbitrary: g)
  case Nil
  then show ?case by simp
next
  case (Cons a ks)
  have above: "\<forall>x \<in> set ks. a < x"
    using Cons.prems(1,2) by (auto simp: le_less)
  have notin: "a \<notin> set ks" using Cons.prems(2) by simp
  show ?case
  proof (cases "a > k")
    case False
    then have eq: "shift_key k g a = g" by (rule shift_key_id)
    have sub: "set ks \<subseteq> fset (fmdom g)" using Cons.prems(3) by simp
    have "fmlookup (foldl (shift_key k) g ks) j =
      (if Suc j \<in> set ks \<and> Suc j > k then fmlookup g (Suc j)
       else if j \<in> set ks \<and> j > k then None else fmlookup g j)"
      using Cons.IH [of g] Cons.prems(1,2) sub by simp
    with False eq show ?thesis by auto
  next
    case True
    from Cons.prems(3) obtain v where v: "fmlookup g a = Some v"
      by (auto simp: fmlookup_dom_iff)
    let ?g = "shift_key k g a"
    have lk: "\<And>i. fmlookup ?g i = (if i = a then None else if Suc i = a then Some v else fmlookup g i)"
      using shift_key_lookup [OF v True] by simp
    have sub: "set ks \<subseteq> fset (fmdom ?g)"
    proof
      fix x assume x: "x \<in> set ks"
      then have "x \<noteq> a" "Suc x \<noteq> a" using above by auto
      moreover have "x |\<in>| fmdom g" using x Cons.prems(3) by auto
      ultimately show "x \<in> fset (fmdom ?g)"
        using lk [of x] by (auto simp: fmlookup_dom_iff)
    qed
    have ih: "fmlookup (foldl (shift_key k) ?g ks) j =
      (if Suc j \<in> set ks \<and> Suc j > k then fmlookup ?g (Suc j)
       else if j \<in> set ks \<and> j > k then None else fmlookup ?g j)"
      using Cons.IH [of ?g] Cons.prems(1,2) sub by simp
    show ?thesis
      using ih lk above notin True v by (auto split: if_splits)
  qed
qed

lemma lookup_remove_generated:
  "fmlookup (remove_generated k m) j = (if j < k then fmlookup m j else fmlookup m (Suc j))"
proof -
  let ?g = "fmdrop k m"
  let ?ks = "sorted_list_of_fset (fmdom ?g)"
  have "fmlookup (foldl (shift_key k) ?g ?ks) j =
     (if Suc j \<in> set ?ks \<and> Suc j > k then fmlookup ?g (Suc j)
      else if j \<in> set ?ks \<and> j > k then None
      else fmlookup ?g j)"
    by (rule shift_loop) (simp_all add: sorted_list_of_fset.rep_eq)
  then show ?thesis
    by (auto simp: remove_generated_def Let_def fmlookup_dom_iff split: if_splits)
qed

lemma dom_remove_generated:
  "fset (fmdom (remove_generated k m)) =
     (\<lambda>i. if i < k then i else i - 1) ` (fset (fmdom m) - {k})"
proof (rule set_eqI)
  fix j
  let ?f = "\<lambda>i::nat. if i < k then i else i - 1"
  have mem: "j \<in> fset (fmdom (remove_generated k m)) \<longleftrightarrow>
      (if j < k then j \<in> fset (fmdom m) else Suc j \<in> fset (fmdom m))"
    by (simp add: fmlookup_dom_iff lookup_remove_generated)
  show "j \<in> fset (fmdom (remove_generated k m)) \<longleftrightarrow> j \<in> ?f ` (fset (fmdom m) - {k})"
  proof
    assume "j \<in> fset (fmdom (remove_generated k m))"
    with mem have old: "(if j < k then j else Suc j) \<in> fset (fmdom m) - {k}"
      by (auto split: if_splits)
    have "j = ?f (if j < k then j else Suc j)" by simp
    from this old show "j \<in> ?f ` (fset (fmdom m) - {k})" by (rule image_eqI)
  next
    assume "j \<in> ?f ` (fset (fmdom m) - {k})"
    then obtain i where i: "i \<in> fset (fmdom m)" "i \<noteq> k" "j = ?f i"
      by blast
    show "j \<in> fset (fmdom (remove_generated k m))"
    proof (cases "i < k")
      case True
      with i mem show ?thesis by simp
    next
      case False
      with i have "k < i" by simp
      with i have "\<not> j < k" "Suc j = i" by auto
      with i mem show ?thesis by simp
    qed
  qed
qed

lemma card_dom_remove_generated:
  "card (fset (fmdom (remove_generated k m))) = card (fset (fmdom m) - {k})"
proof -
  have "inj_on (\<lambda>i. if i < k then i else i - 1) (fset (fmdom m) - {k})"
    by (rule inj_onI) (auto split: if_splits)
  then show ?thesis
    by (simp only: dom_remove_generated card_image)
qed

lemma contiguous_remove_generated:
  assumes "k < n" and "fset (fmdom m) = {..<n}"
  shows "fset (fmdom (remove_generated k m)) = {..<n - 1}"
proof (rule set_eqI)
  fix j
  have mem: "j \<in> fset (fmdom (remove_generated k m)) \<longleftrightarrow>
      (if j < k then j \<in> fset (fmdom m) else Suc j \<in> fset (fmdom m))"
    by (simp add: fmlookup_dom_iff lookup_remove_generated)
  have d: "\<And>i. i \<in> fset (fmdom m) \<longleftrightarrow> i < n"
    unfolding assms(2) by simp
  have "(if j < k then j < n else Suc j < n) \<longleftrightarrow> j < n - 1"
    using assms(1) by auto
  then show "j \<in> fset (fmdom (remove_generated k m)) \<longleftrightarrow> j \<in> {..<n - 1}"
    unfolding mem d by simp
qed

text \<open>
  Claim C3. Removing the uploaded image at index \<open>k\<close>: the uploaded sequence loses exactly
  the element at \<open>k\<close> and keeps the order of the rest; the generated image at key \<open>k\<close> is
  deleted and every generated image at a key above \<open>k\<close> moves down by exactly one, so the
  result at key \<open>j\<close> is the old one at \<open>j\<close> below \<open>k\<close> and the old one at \<open>j + 1\<close> from \<open>k\<close>
  on. The uploaded image at position \<open>j\<close> of the new sequence is re-indexed in the same way,
  which keeps the pairs aligned. No two keys collide (the number of keys is that of the
  old keys other than \<open>k\<close>), and keys \<open>0, \<dots>, n - 1\<close> without a gap become \<open>0, \<dots>, n - 2\<close>
  without a gap.
\<close>

theorem handleRemoveImage_reindex:
  "originalImages (handleRemoveImage k st)
       = take k (originalImages st) @ drop (Suc k) (originalImages st)
   \<and> fmlookup (generatedImages (handleRemoveImage k st)) j
       = (if j < k then fmlookup (generatedImages st) j
          else fmlookup (generatedImages st) (Suc j))
   \<and> (j < length (originalImages (handleRemoveImage k st)) \<longrightarrow>
        originalImages (handleRemoveImage k st) ! j
          = originalImages st ! (if j < k then j else Suc j))
   \<and> card (fset (fmdom (generatedImages (handleRemoveImage k st))))
       = card (fset (fmdom (generatedImages st)) - {k})
   \<and> (k < n \<and> fset (fmdom (generatedImages st)) = {..<n} \<longrightarrow>
        fset (fmdom (generatedImages (handleRemoveImage k st))) = {..<n - 1})"
proof -
  have gen: "generatedImages (handleRemoveImage k st) = remove_generated k (generatedImages st)"
    and orig: "originalImages (handleRemoveImage k st) = filter_index k (originalImages st)"
    by (simp_all add: handleRemoveImage_def)
  have 1: "filter_index k (originalImages st)
      = take k (originalImages st) @ drop (Suc k) (originalImages st)"
    by (rule filter_index_take_drop)
  have 2: "fmlookup (remove_generated k (generatedImages st)) j
      = (if j < k then fmlookup (generatedImages st) j
         else fmlookup (generatedImages st) (Suc j))"
    by (rule lookup_remove_generated)
  have 3: "j < length (filter_index k (originalImages st)) \<longrightarrow>
      filter_index k (originalImages st) ! j = originalImages st ! (if j < k then j else Suc j)"
    using filter_index_nth [of j k "originalImages st"] by blast
  have 4: "card (fset (fmdom (remove_generated k (generatedImages st))))
      = card (fset (fmdom (generatedImages st)) - {k})"
    by (rule card_dom_remove_generated)
  have 5: "k < n \<and> fset (fmdom (generatedImages st)) = {..<n} \<longrightarrow>
      fset (fmdom (remove_generated k (generatedImages st))) = {..<n - 1}"
    using contiguous_remove_generated [of k n "generatedImages st"] by blast
  show ?thesis
    unfolding gen orig using 1 2 3 4 5 by (intro conjI)
qed

theorem handleRemoveImage_reindex_witness:
  "originalImages (handleRemoveImage 1 (initialApp\<lparr>originalImages := [''a'', ''b'', ''c''],
        generatedImages := fmupd 0 ''A'' (fmupd 1 ''B'' (fmupd 2 ''C'' fmempty))\<rparr>))
     = [''a'', ''c'']
   \<and> fmlookup (generatedImages (handleRemoveImage 1 (initialApp\<lparr>originalImages := [''a'', ''b'', ''c''],
        generatedImages := fmupd 0 ''A'' (fmupd 1 ''B'' (fmupd 2 ''C'' fmempty))\<rparr>))) 1
     = Some ''C''
   \<and> originalImages (handleRemoveImage 1 (initialApp\<lparr>originalImages := [''a'', ''b'', ''c''],
        generatedImages := fmupd 0 ''A'' (fmupd 1 ''B'' (fmupd 2 ''C'' fmempty))\<rparr>)) ! 1
     = ''c''
   \<and> fset (fmdom (generatedImages (handleRemoveImage 1 (initialApp\<lparr>originalImages := [''a'', ''b'', ''c''],
        generatedImages := fmupd 0 ''A'' (fmupd 1 ''B'' (fmupd 2 ''C'' fmempty))\<rparr>))))
     = {..<2}"
proof -
  let ?st = "initialApp\<lparr>originalImages := [''a'', ''b'', ''c''],
        generatedImages := fmupd 0 ''A'' (fmupd 1 ''B'' (fmupd 2 ''C'' fmempty))\<rparr>"
  have dom: "fset (fmdom (generatedImages ?st)) = {..<3}"
    by (auto simp: initialApp_def)
  have len: "(1::nat) < length (originalImages (handleRemoveImage 1 ?st))"
    by (simp add: handleRemoveImage_def filter_index_def)
  from handleRemoveImage_reindex [of 1 ?st 1 3] dom len show ?thesis
    by (simp add: initialApp_def)
qed

text \<open>
  Claim C10. Removing the uploaded image at index \<open>k\<close> re-aligns the selection: a selection
  equal to \<open>k\<close> becomes \<open>null\<close>, a selection above \<open>k\<close> decreases by exactly one, and a
  selection below \<open>k\<close> (index 0 included) stays, as does no selection.
\<close>

theorem handleRemoveImage_selection:
  "selectedResultIndex (handleRemoveImage k st) =
     (case selectedResultIndex st of
        None \<Rightarrow> None
      | Some s \<Rightarrow> if s = k then None else if s > k then Some (s - 1) else Some s)"
  by (auto simp: handleRemoveImage_def realign_selection_def split: option.splits)

theorem handleRemoveImage_selection_witness:
  "selectedResultIndex (handleRemoveImage 1 (initialApp\<lparr>selectedResultIndex := Some 1\<rparr>)) = None
   \<and> selectedResultIndex (handleRemoveImage 1 (initialApp\<lparr>selectedResultIndex := Some 2\<rparr>)) = Some 1
   \<and> selectedResultIndex (handleRemoveImage 1 (initialApp\<lparr>selectedResultIndex := Some 0\<rparr>)) = Some 0"
  using handleRemoveImage_selection [of 1 "initialApp\<lparr>selectedResultIndex := Some 1\<rparr>"]
    handleRemoveImage_selection [of 1 "initialApp\<lparr>selectedResultIndex := Some 2\<rparr>"]
    handleRemoveImage_selection [of 1 "initialApp\<lparr>selectedResultIndex := Some 0\<rparr>"]
  by simp

section \<open>The schedule of a generation run\<close>

text \<open>
  A run whose steps below \<open>f\<close> resolve and whose step \<open>f\<close>, if there is one, is rejected:
  first the loop alone, then the whole handler.
\<close>

lemma lookup_foldl_fmupd:
  "fmlookup (foldl (\<lambda>g j. fmupd j (res j) g) g0 [i..<f]) k =
     (if i \<le> k \<and> k < f then Some (res k) else fmlookup g0 k)"
  by (induction f) auto

lemma lookup_committed:
  "fmlookup (committed res f) k = (if k < f then Some (res k) else None)"
  by (simp add: committed_def lookup_foldl_fmupd)

lemma calls_of_append: "calls_of (xs @ ys) = calls_of xs @ calls_of ys"
  by (induction xs rule: calls_of.induct) auto

lemma apply_loop_run:
  assumes "i \<le> f" and "f \<le> length imgs"
    and "\<forall>j. i \<le> j \<and> j < f \<longrightarrow> svc j (applyStyleFromReference (imgs ! j) r q) = Some (res j)"
    and "f < length imgs \<longrightarrow> svc f (applyStyleFromReference (imgs ! f) r q) = None"
  shows "\<exists>p. apply_loop svc imgs r q i (st, tr) =
      (if f < length imgs then Inl else Inr)
        (st\<lparr>generationProgress := p,
            generatedImages := foldl (\<lambda>g j. fmupd j (res j) g) (generatedImages st) [i..<f]\<rparr>,
         tr @ concat (map (\<lambda>j. step_events (length imgs)
                  (applyStyleFromReference (imgs ! j) r q) (res j) j) [i..<f])
            @ (if f < length imgs
               then [setGenerationProgress (f + 1) (length imgs),
                     await (applyStyleFromReference (imgs ! f) r q)]
               else []))"
  using assms
proof (induction "f - i" arbitrary: i st tr)
  case 0
  then have [simp]: "i = f" by simp
  show ?case
  proof (cases "f < length imgs")
    case True
    with 0 show ?thesis
      by (auto simp: apply_loop.simps [of svc imgs r q f] Let_def)
  next
    case False
    then show ?thesis
      by (auto simp: apply_loop.simps [of svc imgs r q f] intro: exI [of _ "generationProgress st"])
  qed
next
  case (Suc n)
  then have lt: "i < f" and ilen: "i < length imgs" by auto
  from Suc.prems lt have ok: "svc i (applyStyleFromReference (imgs ! i) r q) = Some (res i)"
    by auto
  let ?st = "st\<lparr>generationProgress := Some (i + 1, length imgs)\<rparr>
               \<lparr>generatedImages := fmupd i (res i) (generatedImages st)\<rparr>"
  let ?tr = "tr @ step_events (length imgs) (applyStyleFromReference (imgs ! i) r q) (res i) i"
  have unfold: "apply_loop svc imgs r q i (st, tr) = apply_loop svc imgs r q (i + 1) (?st, ?tr)"
    using ilen ok by (simp add: apply_loop.simps [of svc imgs r q i] Let_def step_events_def)
  have n: "n = f - (i + 1)" using Suc.hyps(2) by simp
  have "\<exists>p. apply_loop svc imgs r q (i + 1) (?st, ?tr) =
      (if f < length imgs then Inl else Inr)
        (?st\<lparr>generationProgress := p,
            generatedImages := foldl (\<lambda>g j. fmupd j (res j) g) (generatedImages ?st) [i + 1..<f]\<rparr>,
         ?tr @ concat (map (\<lambda>j. step_events (length imgs)
                  (applyStyleFromReference (imgs ! j) r q) (res j) j) [i + 1..<f])
            @ (if f < length imgs
               then [setGenerationProgress (f + 1) (length imgs),
                     await (applyStyleFromReference (imgs ! f) r q)]
               else []))"
    using Suc.prems lt by (intro Suc.hyps(1) [OF n]) auto
  then show ?case
    unfolding unfold using lt by (simp add: upt_conv_Cons)
qed

lemma handleGenerateClick_run:
  assumes imgs: "originalImages st \<noteq> []"
    and styleLabel: "selectedStyle st = Some styleLabel" "styleLabel \<noteq> []"
    and f: "f \<le> length (originalImages st)"
    and ok: "\<forall>j<f. svc j (batch_call st styleLabel (res 0) j) = Some (res j)"
    and fail: "f < length (originalImages st) \<longrightarrow> svc f (batch_call st styleLabel (res 0) f) = None"
  shows "handleGenerateClick svc st =
    (st\<lparr>appState := (if f < length (originalImages st) then initial else ready),
        error := (if f < length (originalImages st)
                  then Some ''Failed to generate all images. Please try again.'' else None),
        generatedImages := committed res f, chatMessages := [], chatMode := design,
        selectedResultIndex := None, generationProgress := None\<rparr>,
     concat (map (\<lambda>j. step_events (length (originalImages st))
                (batch_call st styleLabel (res 0) j) (res j) j) [0..<f])
       @ (if f < length (originalImages st)
          then [setGenerationProgress (f + 1) (length (originalImages st)),
                await (batch_call st styleLabel (res 0) f)]
          else []))"
proof -
  let ?N = "length (originalImages st)"
  let ?st0 = "st\<lparr>appState := generating, error := None, generatedImages := fmempty,
                chatMessages := [], chatMode := design, selectedResultIndex := None\<rparr>"
  let ?gen = "generateImageWithStyle (originalImages st ! 0) styleLabel (selectedColorPalette st)
                (selectedAtmosphere st) (selectedQuality st)"
  have N: "0 < ?N" using imgs by simp
  have hg: "handleGenerateClick svc st =
      (case generate_try svc styleLabel ?st0 of
         Inr (st1, tr) \<Rightarrow> (st1\<lparr>appState := ready, generationProgress := None\<rparr>, tr)
       | Inl (st1, tr) \<Rightarrow>
           (st1\<lparr>error := Some ''Failed to generate all images. Please try again.'',
                appState := initial, generationProgress := None\<rparr>, tr))"
    using imgs styleLabel by (simp add: handleGenerateClick_def Let_def)
  have gen: "batch_call st styleLabel (res 0) 0 = ?gen" by (simp add: batch_call_def)
  show ?thesis
  proof (cases "f = 0")
    case True
    with fail N gen have "svc 0 ?gen = None" by simp
    then have "generate_try svc styleLabel ?st0 =
        Inl (?st0\<lparr>generationProgress := Some (1, ?N)\<rparr>, [setGenerationProgress 1 ?N, await ?gen])"
      by (auto simp: generate_try_def Let_def)
    then show ?thesis
      unfolding hg using True N gen by (simp add: committed_def)
  next
    case False
    with ok gen have r0: "svc 0 ?gen = Some (res 0)" by auto
    show ?thesis
    proof (cases "?N = 1")
      case True
      with False f have f1: "f = 1" by simp
      have "generate_try svc styleLabel ?st0 =
        Inr (?st0\<lparr>generationProgress := Some (1, 1), generatedImages := fmupd 0 (res 0) fmempty\<rparr>,
             [setGenerationProgress 1 1, await ?gen, setGeneratedImages 0 (res 0)])"
        using True r0 by (simp add: generate_try_def Let_def)
      then show ?thesis
        unfolding hg using True f1 gen by (simp add: committed_def step_events_def)
    next
      case N1: False
      let ?q = "selectedQuality st"
      let ?st1 = "?st0\<lparr>generationProgress := Some (1, ?N),
                      generatedImages := fmupd 0 (res 0) fmempty\<rparr>"
      let ?tr1 = "[setGenerationProgress 1 ?N, await ?gen, setGeneratedImages 0 (res 0)]"
      have tryeq: "generate_try svc styleLabel ?st0 =
          apply_loop svc (originalImages st) (res 0) ?q 1 (?st1, ?tr1)"
        using N1 r0 by (simp add: generate_try_def Let_def)
      have call: "\<And>j. 0 < j \<Longrightarrow> batch_call st styleLabel (res 0) j =
          applyStyleFromReference (originalImages st ! j) (res 0) ?q"
        by (simp add: batch_call_def)
      have "\<exists>p. apply_loop svc (originalImages st) (res 0) ?q 1 (?st1, ?tr1) =
        (if f < ?N then Inl else Inr)
          (?st1\<lparr>generationProgress := p,
              generatedImages := foldl (\<lambda>g j. fmupd j (res j) g) (generatedImages ?st1) [1..<f]\<rparr>,
           ?tr1 @ concat (map (\<lambda>j. step_events ?N
                    (applyStyleFromReference (originalImages st ! j) (res 0) ?q) (res j) j) [1..<f])
              @ (if f < ?N
                 then [setGenerationProgress (f + 1) ?N,
                       await (applyStyleFromReference (originalImages st ! f) (res 0) ?q)]
                 else []))"
        using False f ok fail call by (intro apply_loop_run) auto
      then obtain p where run: "apply_loop svc (originalImages st) (res 0) ?q 1 (?st1, ?tr1) =
        (if f < ?N then Inl else Inr)
          (?st1\<lparr>generationProgress := p,
              generatedImages := foldl (\<lambda>g j. fmupd j (res j) g) (generatedImages ?st1) [1..<f]\<rparr>,
           ?tr1 @ concat (map (\<lambda>j. step_events ?N
                    (applyStyleFromReference (originalImages st ! j) (res 0) ?q) (res j) j) [1..<f])
              @ (if f < ?N
                 then [setGenerationProgress (f + 1) ?N,
                       await (applyStyleFromReference (originalImages st ! f) (res 0) ?q)]
                 else []))" ..
      have upt: "[0..<f] = 0 # [1..<f]" using False by (simp add: upt_conv_Cons)
      have maps: "map (\<lambda>j. step_events ?N (batch_call st styleLabel (res 0) j) (res j) j) [1..<f]
          = map (\<lambda>j. step_events ?N
                    (applyStyleFromReference (originalImages st ! j) (res 0) ?q) (res j) j) [1..<f]"
        using call by simp
      have callf: "batch_call st styleLabel (res 0) f =
          applyStyleFromReference (originalImages st ! f) (res 0) ?q"
        using False call by simp
      show ?thesis
      proof -
        have "concat (map (\<lambda>j. step_events ?N (batch_call st styleLabel (res 0) j) (res j) j) [1..<f])
          = concat (map (\<lambda>j. step_events ?N
                    (applyStyleFromReference (originalImages st ! j) (res 0) ?q) (res j) j) [1..<f])"
          by (simp only: maps)
        then show ?thesis
          unfolding hg tryeq run
          by (simp add: committed_def upt callf gen step_events_def)
      qed
    qed
  qed
qed


lemma calls_of_steps:
  "calls_of (concat (map (\<lambda>j. step_events n (c j) (r j) j) js)) = map c js"
  by (induction js) (simp_all add: step_events_def)


text \<open>
  Claim C2. When the call of step \<open>f\<close> is rejected (the calls of the steps before it
  having resolved to \<open>res 0, \<dots>, res (f - 1)\<close>): the calls awaited are those of the steps
  \<open>0, \<dots>, f\<close> and no later one, the one batch-failure message is set, the run state is back
  to \<open>initial\<close>, the progress is cleared, and the generated images are exactly the results
  of the steps below \<open>f\<close>: present at every index below \<open>f\<close>, absent from \<open>f\<close> on.
\<close>

theorem handleGenerateClick_failure:
  assumes "originalImages st \<noteq> []" and "selectedStyle st = Some styleLabel" and "styleLabel \<noteq> []"
    and "f < length (originalImages st)"
    and "\<forall>j<f. svc j (batch_call st styleLabel (res 0) j) = Some (res j)"
    and "svc f (batch_call st styleLabel (res 0) f) = None"
  shows "calls_of (snd (handleGenerateClick svc st))
           = map (batch_call st styleLabel (res 0)) [0..<Suc f]
       \<and> error (fst (handleGenerateClick svc st))
           = Some ''Failed to generate all images. Please try again.''
       \<and> appState (fst (handleGenerateClick svc st)) = initial
       \<and> generationProgress (fst (handleGenerateClick svc st)) = None
       \<and> fmlookup (generatedImages (fst (handleGenerateClick svc st))) k
           = (if k < f then Some (res k) else None)
       \<and> originalImages (fst (handleGenerateClick svc st)) = originalImages st"
proof -
  have run: "handleGenerateClick svc st =
    (st\<lparr>appState := initial,
        error := Some ''Failed to generate all images. Please try again.'',
        generatedImages := committed res f, chatMessages := [], chatMode := design,
        selectedResultIndex := None, generationProgress := None\<rparr>,
     concat (map (\<lambda>j. step_events (length (originalImages st))
                (batch_call st styleLabel (res 0) j) (res j) j) [0..<f])
       @ [setGenerationProgress (f + 1) (length (originalImages st)),
          await (batch_call st styleLabel (res 0) f)])"
    using handleGenerateClick_run [of st styleLabel f svc res] assms by simp
  show ?thesis
    unfolding run by (simp add: calls_of_steps calls_of_append lookup_committed)
qed

theorem handleGenerateClick_failure_witness:
  "calls_of (snd (handleGenerateClick (\<lambda>n c. if n = 2 then None else Some ''r'')
      (initialApp\<lparr>originalImages := [''a'', ''b'', ''c''], selectedStyle := Some ''Industrial''\<rparr>)))
     = [generateImageWithStyle ''a'' ''Industrial'' None None standard,
        applyStyleFromReference ''b'' ''r'' standard,
        applyStyleFromReference ''c'' ''r'' standard]
   \<and> error (fst (handleGenerateClick (\<lambda>n c. if n = 2 then None else Some ''r'')
      (initialApp\<lparr>originalImages := [''a'', ''b'', ''c''], selectedStyle := Some ''Industrial''\<rparr>)))
     = Some ''Failed to generate all images. Please try again.''
   \<and> appState (fst (handleGenerateClick (\<lambda>n c. if n = 2 then None else Some ''r'')
      (initialApp\<lparr>originalImages := [''a'', ''b'', ''c''], selectedStyle := Some ''Industrial''\<rparr>)))
     = initial
   \<and> generationProgress (fst (handleGenerateClick (\<lambda>n c. if n = 2 then None else Some ''r'')
      (initialApp\<lparr>originalImages := [''a'', ''b'', ''c''], selectedStyle := Some ''Industrial''\<rparr>)))
     = None
   \<and> fmlookup (generatedImages (fst (handleGenerateClick (\<lambda>n c. if n = 2 then None else Some ''r'')
      (initialApp\<lparr>originalImages := [''a'', ''b'', ''c''], selectedStyle := Some ''Industrial''\<rparr>)))) 1
     = Some ''r''
   \<and> fmlookup (generatedImages (fst (handleGenerateClick (\<lambda>n c. if n = 2 then None else Some ''r'')
      (initialApp\<lparr>originalImages := [''a'', ''b'', ''c''], selectedStyle := Some ''Industrial''\<rparr>)))) 2
     = None"
proof -
  let ?st = "initialApp\<lparr>originalImages := [''a'', ''b'', ''c''], selectedStyle := Some ''Industrial''\<rparr>"
  let ?svc = "\<lambda>(n::nat) (c::call). if n = 2 then None else Some ''r''"
  have h: "originalImages ?st \<noteq> []" "selectedStyle ?st = Some ''Industrial''" "''Industrial'' \<noteq> []"
    "2 < length (originalImages ?st)"
    "\<forall>j<2. ?svc j (batch_call ?st ''Industrial'' ((\<lambda>_. ''r'') 0) j) = Some ((\<lambda>_. ''r'') j)"
    "?svc 2 (batch_call ?st ''Industrial'' ((\<lambda>_. ''r'') 0) 2) = None"
    by simp_all
  have upt: "[0..<Suc 2] = [0, 1, 2]" by (simp add: upt_rec)
  from handleGenerateClick_failure [OF h, of 1] handleGenerateClick_failure [OF h, of 2]
  show ?thesis
    unfolding upt by (simp add: batch_call_def initialApp_def)
qed

text \<open>
  Claim C1, as it stands, speaks of every run. A run whose first call is rejected stops
  there: with two uploaded images and a style selected it awaits the one style call and no
  reference call, where the claim has one style call followed by one reference call, two
  calls in all.
\<close>

theorem handleGenerateClick_schedule_counterexample:
  "length (originalImages
      (initialApp\<lparr>originalImages := [''a'', ''b''], selectedStyle := Some ''Industrial''\<rparr>)) = 2
   \<and> selectedStyle
      (initialApp\<lparr>originalImages := [''a'', ''b''], selectedStyle := Some ''Industrial''\<rparr>)
     = Some ''Industrial''
   \<and> calls_of (snd (handleGenerateClick rejecting
        (initialApp\<lparr>originalImages := [''a'', ''b''], selectedStyle := Some ''Industrial''\<rparr>)))
     = [generateImageWithStyle ''a'' ''Industrial'' None None standard]
   \<and> length (calls_of (snd (handleGenerateClick rejecting
        (initialApp\<lparr>originalImages := [''a'', ''b''], selectedStyle := Some ''Industrial''\<rparr>))))
     \<noteq> 1 + (2 - 1)"
  by (simp add: handleGenerateClick_def generate_try_def initialApp_def rejecting_def)

text \<open>
  Claim C1, amended: for every run, started with a non-empty uploaded sequence and a style
  selected, in which no call is rejected (step \<open>j\<close> resolving to \<open>res j\<close>). The run is, step
  by step in ascending order of the index, a progress update, the awaited call and the
  commit of its result, so that each call is awaited after the commit of the step before.
  Its calls are one style call for image 0 followed by the reference calls for the images
  \<open>1, \<dots>, N - 1\<close>, each against the result \<open>res 0\<close> of the style call. With one image this is
  the style call alone, and its result is the generated image 0. The run ends \<open>ready\<close> with
  the result of step \<open>k\<close> at index \<open>k\<close>.
\<close>

theorem handleGenerateClick_schedule:
  assumes "originalImages st \<noteq> []" and "selectedStyle st = Some styleLabel" and "styleLabel \<noteq> []"
    and "\<forall>j<length (originalImages st). svc j (batch_call st styleLabel (res 0) j) = Some (res j)"
  shows "snd (handleGenerateClick svc st)
           = concat (map (\<lambda>i. [setGenerationProgress (i + 1) (length (originalImages st)),
                                await (batch_call st styleLabel (res 0) i),
                                setGeneratedImages i (res i)])
                      [0..<length (originalImages st)])
       \<and> calls_of (snd (handleGenerateClick svc st))
           = generateImageWithStyle (originalImages st ! 0) styleLabel (selectedColorPalette st)
               (selectedAtmosphere st) (selectedQuality st)
             # map (\<lambda>i. applyStyleFromReference (originalImages st ! i) (res 0) (selectedQuality st))
                 [1..<length (originalImages st)]
       \<and> fmlookup (generatedImages (fst (handleGenerateClick svc st))) k
           = (if k < length (originalImages st) then Some (res k) else None)
       \<and> appState (fst (handleGenerateClick svc st)) = ready
       \<and> generationProgress (fst (handleGenerateClick svc st)) = None
       \<and> error (fst (handleGenerateClick svc st)) = None"
proof -
  let ?N = "length (originalImages st)"
  have run: "handleGenerateClick svc st =
    (st\<lparr>appState := ready, error := None,
        generatedImages := committed res ?N, chatMessages := [], chatMode := design,
        selectedResultIndex := None, generationProgress := None\<rparr>,
     concat (map (\<lambda>j. step_events ?N (batch_call st styleLabel (res 0) j) (res j) j) [0..<?N]))"
    using handleGenerateClick_run [of st styleLabel ?N svc res] assms by simp
  have N: "0 < ?N" using assms(1) by simp
  have calls: "map (batch_call st styleLabel (res 0)) [0..<?N]
      = generateImageWithStyle (originalImages st ! 0) styleLabel (selectedColorPalette st)
          (selectedAtmosphere st) (selectedQuality st)
        # map (\<lambda>i. applyStyleFromReference (originalImages st ! i) (res 0) (selectedQuality st))
            [1..<?N]"
    using N by (simp add: upt_conv_Cons batch_call_def)
  have tr: "calls_of (concat (map (\<lambda>j. step_events ?N (batch_call st styleLabel (res 0) j)
      (res j) j) [0..<?N])) = map (batch_call st styleLabel (res 0)) [0..<?N]"
    by (rule calls_of_steps)
  show ?thesis
    unfolding run by (simp add: tr calls lookup_committed) (simp add: step_events_def)
qed

theorem handleGenerateClick_schedule_witness:
  "snd (handleGenerateClick (\<lambda>n c. Some ''r'')
      (initialApp\<lparr>originalImages := [''a'', ''b''], selectedStyle := Some ''Industrial''\<rparr>))
     = [setGenerationProgress 1 2,
        await (generateImageWithStyle ''a'' ''Industrial'' None None standard),
        setGeneratedImages 0 ''r'',
        setGenerationProgress 2 2,
        await (applyStyleFromReference ''b'' ''r'' standard),
        setGeneratedImages 1 ''r'']
   \<and> appState (fst (handleGenerateClick (\<lambda>n c. Some ''r'')
      (initialApp\<lparr>originalImages := [''a'', ''b''], selectedStyle := Some ''Industrial''\<rparr>)))
     = ready
   \<and> fmlookup (generatedImages (fst (handleGenerateClick (\<lambda>n c. Some ''r'')
      (initialApp\<lparr>originalImages := [''a'', ''b''], selectedStyle := Some ''Industrial''\<rparr>)))) 1
     = Some ''r''"
proof -
  let ?st = "initialApp\<lparr>originalImages := [''a'', ''b''], selectedStyle := Some ''Industrial''\<rparr>"
  let ?svc = "\<lambda>(n::nat) (c::call). Some ''r''"
  have h: "originalImages ?st \<noteq> []" "selectedStyle ?st = Some ''Industrial''" "''Industrial'' \<noteq> []"
    "\<forall>j<length (originalImages ?st).
       ?svc j (batch_call ?st ''Industrial'' ((\<lambda>_. ''r'') 0) j) = Some ((\<lambda>_. ''r'') j)"
    by simp_all
  have upt: "[0..<length (originalImages ?st)] = [0, 1]" by (simp add: upt_rec)
  from handleGenerateClick_schedule [OF h, of 1]
  show ?thesis
    unfolding upt by (simp add: batch_call_def initialApp_def)
qed

section \<open>Chat sends\<close>

lemma alternates_append:
  "alternates ms \<Longrightarrow> alternates (ms @ [u, m]) = (msg_role u = user \<and> msg_role m = model)"
  by (induction ms rule: alternates.induct) simp_all

lemma str_includes_sublist: "str_includes s t = sublist t s"
  by (induction s) (simp_all add: sublist_Cons_right)

text \<open>
  What a send with a selection does: one call is awaited, and the transcript grows by the
  user's message and one model message.
\<close>

lemma handleSendMessage_selected:
  assumes "selectedResultIndex st = Some sel"
  shows "\<exists>c. snd (handleSendMessage svc now now' st message isShoppingQuery) = [c]
      \<and> chatMessages (fst (handleSendMessage svc now now' st message isShoppingQuery))
          = chatMessages st
            @ [\<lparr>msg_id = toString now, msg_role = user, msg_text = message\<rparr>,
               \<lparr>msg_id = toString (now' + 1), msg_role = model,
                msg_text = reply_text c (svc 0 c)\<rparr>]"
  using assms
  by (cases "svc 0 (getChatResponse message)";
      cases "svc 0 (getShoppingSuggestions (the (fmlookup (generatedImages st) sel)) message)";
      cases "svc 0 (refineImageWithText (the (fmlookup (generatedImages st) sel)) message
               (selectedQuality st))")
     (auto simp: handleSendMessage_def send_try_def reply_text_def Let_def truthy_def
        split: option.splits)

text \<open>
  Claim C4. Without a selected result the send changes nothing and awaits no call. With a
  selection it awaits one call and appends the user's message and then exactly one model
  message: the response text, or the fixed acknowledgement after a refinement, when the
  call resolves, and the fixed apology when it is rejected; the user's message stays in
  both cases. A transcript of user/model pairs remains one.
\<close>

theorem handleSendMessage_transcript:
  "(selectedResultIndex st = None \<longrightarrow>
      handleSendMessage svc now now' st message isShoppingQuery = (st, []))
   \<and> (selectedResultIndex st \<noteq> None \<longrightarrow>
      (\<exists>c. snd (handleSendMessage svc now now' st message isShoppingQuery) = [c]
         \<and> chatMessages (fst (handleSendMessage svc now now' st message isShoppingQuery))
             = chatMessages st
               @ [\<lparr>msg_id = toString now, msg_role = user, msg_text = message\<rparr>,
                  \<lparr>msg_id = toString (now' + 1), msg_role = model,
                   msg_text = reply_text c (svc 0 c)\<rparr>]))
   \<and> (selectedResultIndex st \<noteq> None \<and> alternates (chatMessages st) \<longrightarrow>
      alternates (chatMessages (fst (handleSendMessage svc now now' st message isShoppingQuery))))"
proof (intro conjI impI)
  assume "selectedResultIndex st = None"
  then show "handleSendMessage svc now now' st message isShoppingQuery = (st, [])"
    by (simp add: handleSendMessage_def)
next
  assume "selectedResultIndex st \<noteq> None"
  then obtain sel where "selectedResultIndex st = Some sel" by auto
  then show "\<exists>c. snd (handleSendMessage svc now now' st message isShoppingQuery) = [c]
      \<and> chatMessages (fst (handleSendMessage svc now now' st message isShoppingQuery))
          = chatMessages st
            @ [\<lparr>msg_id = toString now, msg_role = user, msg_text = message\<rparr>,
               \<lparr>msg_id = toString (now' + 1), msg_role = model,
                msg_text = reply_text c (svc 0 c)\<rparr>]"
    by (rule handleSendMessage_selected)
next
  assume a: "selectedResultIndex st \<noteq> None \<and> alternates (chatMessages st)"
  then obtain sel where "selectedResultIndex st = Some sel" by auto
  from handleSendMessage_selected [OF this, of svc now now' message isShoppingQuery]
  obtain c where
    "chatMessages (fst (handleSendMessage svc now now' st message isShoppingQuery))
          = chatMessages st
            @ [\<lparr>msg_id = toString now, msg_role = user, msg_text = message\<rparr>,
               \<lparr>msg_id = toString (now' + 1), msg_role = model,
                msg_text = reply_text c (svc 0 c)\<rparr>]"
    by blast
  with a show "alternates (chatMessages (fst (handleSendMessage svc now now' st message isShoppingQuery)))"
    by (simp add: alternates_append)
qed

theorem handleSendMessage_transcript_witness:
  "handleSendMessage (\<lambda>n c. None) 5 7 initialApp ''hello'' False = (initialApp, [])
   \<and> map msg_text (chatMessages (fst (handleSendMessage (\<lambda>n c. None) 5 7
        (initialApp\<lparr>selectedResultIndex := Some 0, generatedImages := fmupd 0 ''g'' fmempty\<rparr>)
        ''make it blue'' False)))
     = [''make it blue'', ''Sorry, I couldn't process that request. Please try again.'']
   \<and> map msg_role (chatMessages (fst (handleSendMessage (\<lambda>n c. None) 5 7
        (initialApp\<lparr>selectedResultIndex := Some 0, generatedImages := fmupd 0 ''g'' fmempty\<rparr>)
        ''make it blue'' False)))
     = [user, model]
   \<and> alternates (chatMessages (fst (handleSendMessage (\<lambda>n c. None) 5 7
        (initialApp\<lparr>selectedResultIndex := Some 0, generatedImages := fmupd 0 ''g'' fmempty\<rparr>)
        ''make it blue'' False)))"
proof -
  let ?st = "initialApp\<lparr>selectedResultIndex := Some 0, generatedImages := fmupd 0 ''g'' fmempty\<rparr>"
  let ?svc = "\<lambda>(n::nat) (c::call). None :: string option"
  have none: "selectedResultIndex initialApp = None" by (simp add: initialApp_def)
  have some: "selectedResultIndex ?st \<noteq> None" "chatMessages ?st = []" "alternates (chatMessages ?st)"
    by (simp_all add: initialApp_def)
  from handleSendMessage_transcript [of initialApp ?svc 5 7 "''hello''" False] none
  have 1: "handleSendMessage ?svc 5 7 initialApp ''hello'' False = (initialApp, [])"
    by blast
  from handleSendMessage_transcript [of ?st ?svc 5 7 "''make it blue''" False] some
  have 2: "\<exists>c. chatMessages (fst (handleSendMessage ?svc 5 7 ?st ''make it blue'' False))
      = [\<lparr>msg_id = toString 5, msg_role = user, msg_text = ''make it blue''\<rparr>,
         \<lparr>msg_id = toString (7 + 1), msg_role = model,
          msg_text = reply_text c None\<rparr>]"
    and 3: "alternates (chatMessages (fst (handleSendMessage ?svc 5 7 ?st ''make it blue'' False)))"
    by auto
  from 2 have 4: "map msg_text (chatMessages (fst (handleSendMessage ?svc 5 7 ?st ''make it blue'' False)))
      = [''make it blue'', ''Sorry, I couldn't process that request. Please try again.'']"
    and 5: "map msg_role (chatMessages (fst (handleSendMessage ?svc 5 7 ?st ''make it blue'' False)))
      = [user, model]"
    by (auto simp: reply_text_def)
  from 1 3 4 5 show ?thesis by blast
qed

text \<open>
  Claim C5. A refinement in design mode of the selected result \<open>s\<close> (a send that is not a
  shopping query, the selected generated image being \<open>baseImage\<close>) whose call resolves to
  \<open>refinedImage\<close>: the one call awaited is the refinement of \<open>baseImage\<close> with the user's
  text, the generated image at \<open>s\<close> becomes \<open>refinedImage\<close>, every other index keeps what it
  had, the uploaded images are unchanged, and the transcript grows by the user's message
  and the fixed acknowledgement.
\<close>

theorem handleSendMessage_refine:
  assumes "selectedResultIndex st = Some s" and "chatMode st = design"
    and "fmlookup (generatedImages st) s = Some baseImage" and "baseImage \<noteq> []"
    and "svc 0 (refineImageWithText baseImage message (selectedQuality st)) = Some refinedImage"
  shows "snd (handleSendMessage svc now now' st message False)
           = [refineImageWithText baseImage message (selectedQuality st)]
       \<and> fmlookup (generatedImages (fst (handleSendMessage svc now now' st message False))) s
           = Some refinedImage
       \<and> (\<forall>k. k \<noteq> s \<longrightarrow>
             fmlookup (generatedImages (fst (handleSendMessage svc now now' st message False))) k
               = fmlookup (generatedImages st) k)
       \<and> originalImages (fst (handleSendMessage svc now now' st message False))
           = originalImages st
       \<and> chatMessages (fst (handleSendMessage svc now now' st message False))
           = chatMessages st
             @ [\<lparr>msg_id = toString now, msg_role = user, msg_text = message\<rparr>,
                \<lparr>msg_id = toString (now' + 1), msg_role = model,
                 msg_text = ''I've updated the selected design. What do you think?''\<rparr>]"
  using assms
  by (simp add: handleSendMessage_def send_try_def Let_def truthy_def)

theorem handleSendMessage_refine_witness:
  "snd (handleSendMessage (\<lambda>n c. Some ''blue'') 5 7
      (initialApp\<lparr>selectedResultIndex := Some 1,
         generatedImages := fmupd 0 ''g0'' (fmupd 1 ''g1'' fmempty)\<rparr>) ''make it blue'' False)
     = [refineImageWithText ''g1'' ''make it blue'' standard]
   \<and> fmlookup (generatedImages (fst (handleSendMessage (\<lambda>n c. Some ''blue'') 5 7
      (initialApp\<lparr>selectedResultIndex := Some 1,
         generatedImages := fmupd 0 ''g0'' (fmupd 1 ''g1'' fmempty)\<rparr>) ''make it blue'' False))) 1
     = Some ''blue''
   \<and> fmlookup (generatedImages (fst (handleSendMessage (\<lambda>n c. Some ''blue'') 5 7
      (initialApp\<lparr>selectedResultIndex := Some 1,
         generatedImages := fmupd 0 ''g0'' (fmupd 1 ''g1'' fmempty)\<rparr>) ''make it blue'' False))) 0
     = Some ''g0''"
proof -
  let ?st = "initialApp\<lparr>selectedResultIndex := Some 1,
         generatedImages := fmupd 0 ''g0'' (fmupd 1 ''g1'' fmempty)\<rparr>"
  let ?svc = "\<lambda>(n::nat) (c::call). Some ''blue''"
  have h: "selectedResultIndex ?st = Some 1" "chatMode ?st = design"
    "fmlookup (generatedImages ?st) 1 = Some ''g1''" "''g1'' \<noteq> []"
    "?svc 0 (refineImageWithText ''g1'' ''make it blue'' (selectedQuality ?st)) = Some ''blue''"
    by (simp_all add: initialApp_def)
  from handleSendMessage_refine [OF h, of 5 7] show ?thesis
    by (simp add: initialApp_def)
qed

text \<open>
  Claim C6. An input sent from the chat form in design mode, with a result selected whose
  generated image is \<open>baseImage\<close>: the form passes the input on with the shopping flag set
  if and only if the lowercased input contains one of the keywords \<open>shop\<close>, \<open>buy\<close>, \<open>link\<close>,
  \<open>find\<close>, \<open>product\<close>, \<open>item\<close>; a flagged input makes the one awaited call the
  shopping-suggestion call on \<open>baseImage\<close>, any other input the refinement call. The input
  \<open>find a similar lamp\<close> is flagged.
\<close>

theorem submitChat_classification:
  assumes "chatMode st = design" and "selectedResultIndex st = Some s"
    and "fmlookup (generatedImages st) s = Some baseImage" and "baseImage \<noteq> []"
    and "trim input \<noteq> []" and "\<not> isChatLoading st"
  shows "handleSubmit input (isChatLoading st) (chatMode st = design)
           = Some (input,
               \<exists>kw \<in> set [''shop'', ''buy'', ''link'', ''find'', ''product'', ''item''].
                 sublist kw (toLowerCase input))
       \<and> snd (submitChat svc now now' st input)
           = [if \<exists>kw \<in> set [''shop'', ''buy'', ''link'', ''find'', ''product'', ''item''].
                   sublist kw (toLowerCase input)
              then getShoppingSuggestions baseImage input
              else refineImageWithText baseImage input (selectedQuality st)]
       \<and> handleSubmit ''find a similar lamp'' False True = Some (''find a similar lamp'', True)"
proof -
  let ?shop = "\<exists>kw \<in> set [''shop'', ''buy'', ''link'', ''find'', ''product'', ''item''].
                 sublist kw (toLowerCase input)"
  have submit: "handleSubmit input (isChatLoading st) (chatMode st = design) = Some (input, ?shop)"
    using assms(1,5,6)
    by (simp add: handleSubmit_def shoppingKeywords_def str_includes_sublist list_ex_iff)
  have send: "snd (handleSendMessage svc now now' st input b)
      = [if b then getShoppingSuggestions baseImage input
         else refineImageWithText baseImage input (selectedQuality st)]" for b
    using assms(1-4)
    by (cases "svc 0 (getShoppingSuggestions baseImage input)";
        cases "svc 0 (refineImageWithText baseImage input (selectedQuality st))")
       (simp_all add: handleSendMessage_def send_try_def Let_def truthy_def)
  have lamp: "handleSubmit ''find a similar lamp'' False True = Some (''find a similar lamp'', True)"
    by (simp add: handleSubmit_def trim_def isWhiteSpace_def toLowerCase_def shoppingKeywords_def)
  have "snd (submitChat svc now now' st input)
      = [if ?shop then getShoppingSuggestions baseImage input
         else refineImageWithText baseImage input (selectedQuality st)]"
    unfolding submitChat_def submit using send [of ?shop] by simp
  with submit lamp show ?thesis by blast
qed

theorem submitChat_classification_witness:
  "snd (submitChat (\<lambda>n c. Some ''- **[Lamp](http://l)** - A lamp'') 5 7
      (initialApp\<lparr>selectedResultIndex := Some 0, generatedImages := fmupd 0 ''g'' fmempty\<rparr>)
      ''find a similar lamp'')
     = [getShoppingSuggestions ''g'' ''find a similar lamp'']
   \<and> snd (submitChat (\<lambda>n c. Some ''r'') 5 7
      (initialApp\<lparr>selectedResultIndex := Some 0, generatedImages := fmupd 0 ''g'' fmempty\<rparr>)
      ''make it blue'')
     = [refineImageWithText ''g'' ''make it blue'' standard]"
proof -
  let ?st = "initialApp\<lparr>selectedResultIndex := Some 0, generatedImages := fmupd 0 ''g'' fmempty\<rparr>"
  have h: "chatMode ?st = design" "selectedResultIndex ?st = Some 0"
    "fmlookup (generatedImages ?st) 0 = Some ''g''" "''g'' \<noteq> []"
    by (simp_all add: initialApp_def)
  have idle: "\<not> isChatLoading ?st" by (simp add: initialApp_def)
  have t1: "trim ''find a similar lamp'' \<noteq> []" and t2: "trim ''make it blue'' \<noteq> []"
    by (simp_all add: trim_def isWhiteSpace_def)
  have q: "selectedQuality ?st = standard" by (simp add: initialApp_def)
  have s1: "(\<exists>kw \<in> set [''shop'', ''buy'', ''link'', ''find'', ''product'', ''item''].
      sublist kw (toLowerCase ''find a similar lamp'')) = True"
    by (simp add: str_includes_sublist [symmetric] toLowerCase_def)
  have s2: "(\<exists>kw \<in> set [''shop'', ''buy'', ''link'', ''find'', ''product'', ''item''].
      sublist kw (toLowerCase ''make it blue'')) = False"
    by (simp add: str_includes_sublist [symmetric] toLowerCase_def)
  from submitChat_classification [OF h t1 idle, of "\<lambda>n c. Some ''- **[Lamp](http://l)** - A lamp''" 5 7]
    submitChat_classification [OF h t2 idle, of "\<lambda>n c. Some ''r''" 5 7]
  show ?thesis
    unfolding s1 s2 q by simp
qed

section \<open>Preferences and ingestion\<close>

text \<open>
  Claim C8. For every selection of style, palette, atmosphere and quality: after saving,
  loading the stored item into any state gives each saved label where one was selected and
  keeps the state's own label where the saved field is \<open>null\<close> (or empty), and gives the
  saved quality; loaded into the state the controller is mounted with, it gives the four
  values as they were at save time (the labels that can be selected are not empty).
  Clearing sets style, palette and atmosphere to \<open>null\<close> and the quality to \<open>standard\<close> and
  removes the stored item.
\<close>

theorem preferences_round_trip:
  "selectedStyle (loadPreferences (snd (handleSavePreferences (st, storage))) cur)
       = (if truthy (selectedStyle st) then selectedStyle st else selectedStyle cur)
   \<and> selectedColorPalette (loadPreferences (snd (handleSavePreferences (st, storage))) cur)
       = (if truthy (selectedColorPalette st) then selectedColorPalette st
          else selectedColorPalette cur)
   \<and> selectedAtmosphere (loadPreferences (snd (handleSavePreferences (st, storage))) cur)
       = (if truthy (selectedAtmosphere st) then selectedAtmosphere st
          else selectedAtmosphere cur)
   \<and> selectedQuality (loadPreferences (snd (handleSavePreferences (st, storage))) cur)
       = selectedQuality st
   \<and> (selectedStyle st \<noteq> Some [] \<and> selectedColorPalette st \<noteq> Some []
        \<and> selectedAtmosphere st \<noteq> Some [] \<longrightarrow>
        selectedStyle (loadPreferences (snd (handleSavePreferences (st, storage))) initialApp)
          = selectedStyle st
        \<and> selectedColorPalette
            (loadPreferences (snd (handleSavePreferences (st, storage))) initialApp)
          = selectedColorPalette st
        \<and> selectedAtmosphere
            (loadPreferences (snd (handleSavePreferences (st, storage))) initialApp)
          = selectedAtmosphere st
        \<and> selectedQuality
            (loadPreferences (snd (handleSavePreferences (st, storage))) initialApp)
          = selectedQuality st)
   \<and> selectedStyle (fst (handleClearPreferences (st, storage))) = None
   \<and> selectedColorPalette (fst (handleClearPreferences (st, storage))) = None
   \<and> selectedAtmosphere (fst (handleClearPreferences (st, storage))) = None
   \<and> selectedQuality (fst (handleClearPreferences (st, storage))) = standard
   \<and> snd (handleClearPreferences (st, storage)) = None"
  by (cases "selectedStyle st"; cases "selectedColorPalette st"; cases "selectedAtmosphere st")
     (simp_all add: handleSavePreferences_def loadPreferences_def handleClearPreferences_def
        truthy_def Let_def initialApp_def)

theorem preferences_round_trip_witness:
  "selectedStyle (loadPreferences (snd (handleSavePreferences
      (initialApp\<lparr>selectedStyle := Some ''Coastal'', selectedQuality := high\<rparr>, None))) initialApp)
     = Some ''Coastal''
   \<and> selectedColorPalette (loadPreferences (snd (handleSavePreferences
      (initialApp\<lparr>selectedStyle := Some ''Coastal'', selectedQuality := high\<rparr>, None))) initialApp)
     = None
   \<and> selectedQuality (loadPreferences (snd (handleSavePreferences
      (initialApp\<lparr>selectedStyle := Some ''Coastal'', selectedQuality := high\<rparr>, None))) initialApp)
     = high"
proof -
  let ?st = "initialApp\<lparr>selectedStyle := Some ''Coastal'', selectedQuality := high\<rparr>"
  have h: "selectedStyle ?st \<noteq> Some [] \<and> selectedColorPalette ?st \<noteq> Some []
        \<and> selectedAtmosphere ?st \<noteq> Some []"
    by (simp add: initialApp_def)
  from preferences_round_trip [of ?st None initialApp] h show ?thesis
    by (simp add: initialApp_def truthy_def)
qed

lemma Promise_all_resolved: "Promise_all (map Some xs) = Some xs"
  by (induction xs) simp_all

lemma Promise_all_rejected: "None \<in> set ps \<Longrightarrow> Promise_all ps = None"
  by (induction ps) (auto split: option.splits)

text \<open>
  Claim C9. Files that are not of an image type are dropped: the outcome is that of the
  image-typed files alone. With no image-typed file the state does not change. When every
  image-typed file is read (to \<open>newImages\<close>, in order), these are appended to the uploaded
  images and the generation state (generated images, run state, error, chat, selection,
  explanation panel) is reset. When the reading of one of them fails, the state is
  unchanged but for the error message: nothing of the batch is appended and the generation
  state stays.
\<close>

theorem processFiles_batch:
  "processFiles (Some fs) st
       = processFiles (Some (filter (\<lambda>file. prefix ''image/'' (file_type file)) fs)) st
   \<and> (filter (\<lambda>file. prefix ''image/'' (file_type file)) fs = [] \<longrightarrow>
        processFiles (Some fs) st = st)
   \<and> (filter (\<lambda>file. prefix ''image/'' (file_type file)) fs \<noteq> []
        \<and> map readAsDataURL (filter (\<lambda>file. prefix ''image/'' (file_type file)) fs)
            = map Some newImages \<longrightarrow>
        processFiles (Some fs) st
          = st\<lparr>originalImages := originalImages st @ newImages, generatedImages := fmempty,
               appState := initial, error := None, chatMessages := [],
               selectedResultIndex := None, showProcess := True\<rparr>)
   \<and> ((\<exists>file \<in> set (filter (\<lambda>file. prefix ''image/'' (file_type file)) fs).
          readAsDataURL file = None) \<longrightarrow>
        processFiles (Some fs) st
          = st\<lparr>error := Some ''There was an error processing some of your images.''\<rparr>)"
proof (intro conjI impI)
  let ?imageFiles = "filter (\<lambda>file. prefix ''image/'' (file_type file)) fs"
  show "processFiles (Some fs) st = processFiles (Some ?imageFiles) st"
    by (cases "?imageFiles = []") (auto simp: processFiles_def Let_def)
  {
    assume "?imageFiles = []"
    then show "processFiles (Some fs) st = st"
      by (auto simp: processFiles_def Let_def)
  }
  {
    assume a: "?imageFiles \<noteq> [] \<and> map readAsDataURL ?imageFiles = map Some newImages"
    then have "fs \<noteq> []" by auto
    with a show "processFiles (Some fs) st
          = st\<lparr>originalImages := originalImages st @ newImages, generatedImages := fmempty,
               appState := initial, error := None, chatMessages := [],
               selectedResultIndex := None, showProcess := True\<rparr>"
      by (simp add: processFiles_def Let_def Promise_all_resolved resetGenerationState_def)
  }
  {
    assume a: "\<exists>file \<in> set ?imageFiles. readAsDataURL file = None"
    then have ne: "?imageFiles \<noteq> []" "fs \<noteq> []"
      by (auto simp: filter_empty_conv)
    from a have "None \<in> set (map readAsDataURL ?imageFiles)" by force
    then have "Promise_all (map readAsDataURL ?imageFiles) = None"
      by (rule Promise_all_rejected)
    with ne show "processFiles (Some fs) st
          = st\<lparr>error := Some ''There was an error processing some of your images.''\<rparr>"
      by (simp add: processFiles_def Let_def)
  }
qed

theorem processFiles_batch_witness:
  "originalImages (processFiles
      (Some [\<lparr>file_type = ''image/png'', readAsDataURL = Some ''d1''\<rparr>,
             \<lparr>file_type = ''text/plain'', readAsDataURL = Some ''d2''\<rparr>])
      (initialApp\<lparr>originalImages := [''d0''], appState := ready\<rparr>))
     = [''d0'', ''d1'']
   \<and> appState (processFiles
      (Some [\<lparr>file_type = ''image/png'', readAsDataURL = Some ''d1''\<rparr>,
             \<lparr>file_type = ''text/plain'', readAsDataURL = Some ''d2''\<rparr>])
      (initialApp\<lparr>originalImages := [''d0''], appState := ready\<rparr>))
     = initial
   \<and> processFiles (Some [\<lparr>file_type = ''text/plain'', readAsDataURL = Some ''d2''\<rparr>])
      (initialApp\<lparr>originalImages := [''d0''], appState := ready\<rparr>)
     = initialApp\<lparr>originalImages := [''d0''], appState := ready\<rparr>
   \<and> processFiles
      (Some [\<lparr>file_type = ''image/png'', readAsDataURL = Some ''d1''\<rparr>,
             \<lparr>file_type = ''image/gif'', readAsDataURL = None\<rparr>])
      (initialApp\<lparr>originalImages := [''d0''], appState := ready\<rparr>)
     = initialApp\<lparr>originalImages := [''d0''], appState := ready,
         error := Some ''There was an error processing some of your images.''\<rparr>"
proof -
  let ?st = "initialApp\<lparr>originalImages := [''d0''], appState := ready\<rparr>"
  let ?png = "\<lparr>file_type = ''image/png'', readAsDataURL = Some ''d1''\<rparr>"
  let ?txt = "\<lparr>file_type = ''text/plain'', readAsDataURL = Some ''d2''\<rparr>"
  let ?gif = "\<lparr>file_type = ''image/gif'', readAsDataURL = None\<rparr>"
  have f1: "filter (\<lambda>file. prefix ''image/'' (file_type file)) [?png, ?txt] = [?png]"
    and f2: "filter (\<lambda>file. prefix ''image/'' (file_type file)) [?txt] = []"
    and f3: "filter (\<lambda>file. prefix ''image/'' (file_type file)) [?png, ?gif] = [?png, ?gif]"
    by simp_all
  from processFiles_batch [of "[?png, ?txt]" ?st "[''d1'']", THEN conjunct2] f1
  have 1: "processFiles (Some [?png, ?txt]) ?st
      = ?st\<lparr>originalImages := originalImages ?st @ [''d1''], generatedImages := fmempty,
            appState := initial, error := None, chatMessages := [],
            selectedResultIndex := None, showProcess := True\<rparr>"
    by simp
  from processFiles_batch [of "[?txt]" ?st "[]", THEN conjunct2] f2
  have 2: "processFiles (Some [?txt]) ?st = ?st" by simp
  from processFiles_batch [of "[?png, ?gif]" ?st "[]", THEN conjunct2] f3
  have 3: "processFiles (Some [?png, ?gif]) ?st
      = ?st\<lparr>error := Some ''There was an error processing some of your images.''\<rparr>"
    by simp
  show ?thesis
    unfolding 1 2 3 by (simp add: initialApp_def)
qed

section \<open>The message parser\<close>

text \<open>The matcher finds every bullet whose name and url stay on one line.\<close>

lemma match_url_step:
  "\<not> isLineTerminator c \<Longrightarrow> match_url cs \<noteq> None \<Longrightarrow> match_url (c # cs) \<noteq> None"
  by auto

lemma match_url_complete:
  "\<not> list_ex isLineTerminator url \<Longrightarrow> match_url (url @ '')** - '' @ rest) \<noteq> None"
proof (induction url)
  case Nil
  show ?case by simp
next
  case (Cons a url)
  then have "\<not> isLineTerminator a" "match_url (url @ '')** - '' @ rest) \<noteq> None" by simp_all
  then have "match_url (a # (url @ '')** - '' @ rest)) \<noteq> None" by (rule match_url_step)
  then show ?case by simp
qed

lemma match_name_step:
  "\<not> isLineTerminator c \<Longrightarrow> match_name cs \<noteq> None \<Longrightarrow> match_name (c # cs) \<noteq> None"
  by (auto split: option.splits)

lemma match_name_start:
  "match_url t \<noteq> None \<Longrightarrow> match_name ('']('' @ t) \<noteq> None"
  by (auto split: option.splits)

lemma match_name_complete:
  assumes "\<not> list_ex isLineTerminator url"
  shows "\<not> list_ex isLineTerminator name \<Longrightarrow>
    match_name (name @ '']('' @ url @ '')** - '' @ rest) \<noteq> None"
proof (induction name)
  case Nil
  from match_url_complete [OF assms, of rest]
  have "match_name ('']('' @ url @ '')** - '' @ rest) \<noteq> None" by (rule match_name_start)
  then show ?case by simp
next
  case (Cons a name)
  then have "\<not> isLineTerminator a"
    "match_name (name @ '']('' @ url @ '')** - '' @ rest) \<noteq> None" by simp_all
  then have "match_name (a # (name @ '']('' @ url @ '')** - '' @ rest)) \<noteq> None"
    by (rule match_name_step)
  then show ?case by simp
qed

lemma match_here_start:
  "match_name t \<noteq> None \<Longrightarrow> match_here (''- **['' @ t) \<noteq> None"
  by (simp add: match_here_def)

lemma exec_start: "match_here s \<noteq> None \<Longrightarrow> exec s \<noteq> None"
  by (cases s) (auto simp: match_here_def split: option.splits)

lemma exec_step: "exec cs \<noteq> None \<Longrightarrow> exec (c # cs) \<noteq> None"
  by (auto split: option.splits)

lemma exec_append: "exec s \<noteq> None \<Longrightarrow> exec (lead @ s) \<noteq> None"
proof (induction lead)
  case Nil
  then show ?case by simp
next
  case (Cons a lead)
  then have "exec (lead @ s) \<noteq> None" by simp
  then have "exec (a # (lead @ s)) \<noteq> None" by (rule exec_step)
  then show ?case by simp
qed

lemma exec_complete: "well_formed_match s \<Longrightarrow> exec s \<noteq> None"
proof -
  assume "well_formed_match s"
  then obtain lead name url rest
    where s: "s = lead @ ''- **['' @ name @ '']('' @ url @ '')** - '' @ rest"
      and lt: "\<not> list_ex isLineTerminator name" "\<not> list_ex isLineTerminator url"
    unfolding well_formed_match_def by blast
  from lt have "match_name (name @ '']('' @ url @ '')** - '' @ rest) \<noteq> None"
    by (rule match_name_complete [rotated])
  then have "match_here (''- **['' @ name @ '']('' @ url @ '')** - '' @ rest) \<noteq> None"
    by (rule match_here_start)
  then have "exec (''- **['' @ name @ '']('' @ url @ '')** - '' @ rest) \<noteq> None"
    by (rule exec_start)
  then show ?thesis unfolding s by (rule exec_append)
qed

text \<open>What the matcher finds is such a bullet: the name and the url hold no line terminator.\<close>

lemma match_url_one_line:
  "match_url s = Some (url, rest) \<Longrightarrow> \<not> list_ex isLineTerminator url"
proof (induction s arbitrary: url)
  case Nil
  then show ?case by simp
next
  case (Cons c cs)
  show ?case
  proof (cases "prefix '')** - '' (c # cs)")
    case True
    with Cons.prems have "url = []" by auto
    then show ?thesis by simp
  next
    case False
    with Cons.prems obtain url' where u: "match_url cs = Some (url', rest)" "url = c # url'"
      and c: "\<not> isLineTerminator c"
      by (auto split: if_splits)
    from Cons.IH [OF u(1)] u(2) c show ?thesis by simp
  qed
qed

lemma match_name_one_line:
  "match_name s = Some (name, url, rest) \<Longrightarrow>
     \<not> list_ex isLineTerminator name \<and> \<not> list_ex isLineTerminator url"
proof (induction s arbitrary: name)
  case Nil
  then show ?case by simp
next
  case (Cons c cs)
  let ?attempt = "if prefix '']('' (c # cs) then match_url (drop 2 (c # cs)) else None"
  show ?case
  proof (cases ?attempt)
    case None
    with Cons.prems obtain name' where n: "match_name cs = Some (name', url, rest)" "name = c # name'"
      and c: "\<not> isLineTerminator c"
      by (auto split: if_splits)
    from Cons.IH [OF n(1)] n(2) c show ?thesis by simp
  next
    case (Some a)
    with Cons.prems have a: "a = (url, rest)" "name = []" by (auto split: prod.splits)
    from Some a have "match_url (drop 2 (c # cs)) = Some (url, rest)"
      by (auto split: if_splits)
    then have "\<not> list_ex isLineTerminator url" by (rule match_url_one_line)
    with a show ?thesis by simp
  qed
qed

lemma match_here_one_line:
  "match_here s = Some (name, url, description, rest) \<Longrightarrow>
     \<not> list_ex isLineTerminator name \<and> \<not> list_ex isLineTerminator url"
  by (auto simp: match_here_def split: if_splits dest: match_name_one_line)

lemma exec_one_line:
  "exec s = Some (lead, name, url, description, rest) \<Longrightarrow>
     \<not> list_ex isLineTerminator name \<and> \<not> list_ex isLineTerminator url"
proof (induction s arbitrary: lead)
  case Nil
  then show ?case by simp
next
  case (Cons c cs)
  show ?case
  proof (cases "match_here (c # cs)")
    case None
    with Cons.prems obtain b where "exec cs = Some (b, name, url, description, rest)"
      by auto
    then show ?thesis by (rule Cons.IH)
  next
    case (Some a)
    with Cons.prems have "a = (name, url, description, rest)"
      by (auto split: prod.splits)
    with Some have "match_here (c # cs) = Some (name, url, description, rest)" by simp
    then show ?thesis by (rule match_here_one_line)
  qed
qed

lemma exec_sound: "exec s \<noteq> None \<Longrightarrow> well_formed_match s"
proof -
  assume "exec s \<noteq> None"
  then obtain lead name url description rest
    where e: "exec s = Some (lead, name, url, description, rest)"
    by (cases "exec s") auto
  from exec_decomp [OF e] exec_one_line [OF e] show ?thesis
    unfolding well_formed_match_def by blast
qed

lemma well_formed_match_includes:
  assumes "well_formed_match s"
  shows "str_includes s ''- **[''"
proof -
  from assms obtain lead t where "s = lead @ ''- **['' @ t"
    unfolding well_formed_match_def by blast
  then show ?thesis
    unfolding str_includes_sublist by (simp only: sublist_appendI)
qed

text \<open>The parts are the text, cut into pieces.\<close>

lemma parts_loop_source: "concat (map part_source (parts_loop s)) = s"
proof (induction s rule: parts_loop.induct)
  case (1 s)
  show ?case
  proof (cases "exec s")
    case None
    then show ?thesis by (simp add: parts_loop.simps [of s] part_source_def)
  next
    case (Some a)
    then obtain lead name url description rest
      where a: "exec s = Some (lead, name, url, description, rest)"
      by (cases a) auto
    from "1.IH" [OF a refl refl refl refl]
    have ih: "concat (map part_source (parts_loop rest)) = rest" .
    have "parts_loop s = (if lead \<noteq> [] then [Str lead] else [])
        @ Item name url description # parts_loop rest"
      using a by (simp add: parts_loop.simps [of s])
    then have "concat (map part_source (parts_loop s))
        = lead @ (''- **['' @ name @ '']('' @ url @ '')** - '' @ description) @ rest"
      using ih by (simp add: part_source_def)
    also have "\<dots> = s" using exec_decomp [OF a] by simp
    finally show ?thesis .
  qed
qed

lemma split_lines_nonempty: "split_lines s \<noteq> []"
  by (induction s) (auto split: list.splits)

lemma join_split_lines: "join_lines (split_lines s) = s"
proof (induction s)
  case Nil
  show ?case by simp
next
  case (Cons c cs)
  obtain l ls where ls: "split_lines cs = l # ls"
    using split_lines_nonempty [of cs] by (cases "split_lines cs") auto
  with Cons show ?case
    by (cases ls) auto
qed

lemma parts_loop_no_match: "exec s = None \<Longrightarrow> parts_loop s = (if s \<noteq> [] then [Str s] else [])"
  by (simp add: parts_loop.simps [of s])

lemma parts_loop_match:
  "exec s \<noteq> None \<Longrightarrow> \<exists>name url description. Item name url description \<in> set (parts_loop s)"
proof -
  assume "exec s \<noteq> None"
  then obtain lead name url description rest
    where "exec s = Some (lead, name, url, description, rest)"
    by (cases "exec s") auto
  then have "Item name url description \<in> set (parts_loop s)"
    by (simp add: parts_loop.simps [of s])
  then show ?thesis by blast
qed

lemma ParsedMessage_literal:
  assumes "msg_role m = user \<or> \<not> well_formed_match (msg_text m)"
  shows "ParsedMessage m = map Span (split_lines (msg_text m))"
proof (cases "msg_role m = user \<or> \<not> str_includes (msg_text m) ''- **[''")
  case True
  then show ?thesis by (simp add: ParsedMessage_def)
next
  case False
  with assms have "\<not> well_formed_match (msg_text m)" by blast
  then have "exec (msg_text m) = None" using exec_sound by blast
  moreover from False have "msg_text m \<noteq> []" by (cases "msg_text m") auto
  ultimately have "parts_loop (msg_text m) = [Str (msg_text m)]"
    by (simp add: parts_loop_no_match)
  with False show ?thesis by (simp add: ParsedMessage_def render_part_def)
qed

text \<open>
  Claim C7. The rendering depends on the role and the text of a message only. A user's
  message, and a message whose text holds no bullet \<^verbatim>\<open>- **[NAME](URL)** - DESCRIPTION\<close>
  with name and url on one line, is rendered as the lines of its text and nothing else. A
  model's message with such a bullet is rendered from the parts found by the scan, and
  one of them is a shopping item. The parts are in the order of the text and keep it
  verbatim: put one after the other, each item as the bullet it stands for, they are the
  text; and the lines of a literal run, joined again, are the run. The text
  \<^verbatim>\<open>- **[Sofa](http://x)** - Grey linen sofa\<close> of a model's message is rendered as exactly one
  shopping item with name \<open>Sofa\<close>, url \<^verbatim>\<open>http://x\<close> and description \<open>Grey linen sofa\<close>, with
  no literal text beside it.
\<close>

theorem ParsedMessage_segments:
  "(msg_role m = msg_role m' \<and> msg_text m = msg_text m' \<longrightarrow> ParsedMessage m = ParsedMessage m')
   \<and> (msg_role m = user \<or> \<not> well_formed_match (msg_text m) \<longrightarrow>
        ParsedMessage m = map Span (split_lines (msg_text m)))
   \<and> (msg_role m = model \<and> well_formed_match (msg_text m) \<longrightarrow>
        ParsedMessage m = concat (map render_part (parts_loop (msg_text m)))
        \<and> (\<exists>name url description. Item name url description \<in> set (parts_loop (msg_text m))))
   \<and> concat (map part_source (parts_loop (msg_text m))) = msg_text m
   \<and> join_lines (split_lines (msg_text m)) = msg_text m
   \<and> parts_loop ''- **[Sofa](http://x)** - Grey linen sofa''
       = [Item ''Sofa'' ''http://x'' ''Grey linen sofa'']
   \<and> ParsedMessage \<lparr>msg_id = i, msg_role = model,
                     msg_text = ''- **[Sofa](http://x)** - Grey linen sofa''\<rparr>
       = [ShoppingItem ''Sofa'' ''http://x'' ''Grey linen sofa'']"
proof (intro conjI impI)
  assume "msg_role m = msg_role m' \<and> msg_text m = msg_text m'"
  then show "ParsedMessage m = ParsedMessage m'" by (simp add: ParsedMessage_def)
next
  assume "msg_role m = user \<or> \<not> well_formed_match (msg_text m)"
  then show "ParsedMessage m = map Span (split_lines (msg_text m))"
    by (rule ParsedMessage_literal)
next
  assume a: "msg_role m = model \<and> well_formed_match (msg_text m)"
  then have "str_includes (msg_text m) ''- **[''" by (simp add: well_formed_match_includes)
  with a show "ParsedMessage m = concat (map render_part (parts_loop (msg_text m)))"
    by (simp add: ParsedMessage_def)
next
  assume "msg_role m = model \<and> well_formed_match (msg_text m)"
  then have "exec (msg_text m) \<noteq> None" by (simp add: exec_complete)
  then show "\<exists>name url description. Item name url description \<in> set (parts_loop (msg_text m))"
    by (rule parts_loop_match)
next
  show "concat (map part_source (parts_loop (msg_text m))) = msg_text m"
    by (rule parts_loop_source)
next
  show "join_lines (split_lines (msg_text m)) = msg_text m"
    by (rule join_split_lines)
next
  show "parts_loop ''- **[Sofa](http://x)** - Grey linen sofa''
       = [Item ''Sofa'' ''http://x'' ''Grey linen sofa'']"
    by (simp add: parts_loop.simps match_here_def isLineTerminator_def)
next
  show "ParsedMessage \<lparr>msg_id = i, msg_role = model,
                     msg_text = ''- **[Sofa](http://x)** - Grey linen sofa''\<rparr>
       = [ShoppingItem ''Sofa'' ''http://x'' ''Grey linen sofa'']"
    by (simp add: ParsedMessage_def parts_loop.simps match_here_def isLineTerminator_def
        render_part_def)
qed

theorem ParsedMessage_segments_witness:
  "ParsedMessage \<lparr>msg_id = ''1'', msg_role = user,
                  msg_text = ''- **[Sofa](http://x)** - Grey linen sofa''\<rparr>
     = [Span ''- **[Sofa](http://x)** - Grey linen sofa'']
   \<and> ParsedMessage \<lparr>msg_id = ''2'', msg_role = model, msg_text = ''Nice - **[room''\<rparr>
     = [Span ''Nice - **[room'']
   \<and> ParsedMessage \<lparr>msg_id = ''3'', msg_role = model,
                    msg_text = ''Try - **[Sofa](http://x)** - Grey''\<rparr>
     = [Span ''Try '', ShoppingItem ''Sofa'' ''http://x'' ''Grey'']"
proof -
  let ?u = "\<lparr>msg_id = ''1'', msg_role = user,
             msg_text = ''- **[Sofa](http://x)** - Grey linen sofa''\<rparr>"
  let ?n = "\<lparr>msg_id = ''2'', msg_role = model, msg_text = ''Nice - **[room''\<rparr>"
  let ?s = "\<lparr>msg_id = ''3'', msg_role = model, msg_text = ''Try - **[Sofa](http://x)** - Grey''\<rparr>"
  have "exec ''Nice - **[room'' = None"
    by (simp add: match_here_def isLineTerminator_def)
  then have no: "\<not> well_formed_match (msg_text ?n)"
    using exec_complete [of "''Nice - **[room''"] by auto
  have "exec ''Try - **[Sofa](http://x)** - Grey'' \<noteq> None"
    by (simp add: match_here_def isLineTerminator_def)
  then have yes: "well_formed_match (msg_text ?s)"
    using exec_sound [of "''Try - **[Sofa](http://x)** - Grey''"] by simp
  have parts: "parts_loop ''Try - **[Sofa](http://x)** - Grey''
      = [Str ''Try '', Item ''Sofa'' ''http://x'' ''Grey'']"
    by (simp add: parts_loop.simps match_here_def isLineTerminator_def)
  from ParsedMessage_segments [of ?u ?u]
  have 1: "ParsedMessage ?u = map Span (split_lines (msg_text ?u))" by simp
  from ParsedMessage_segments [of ?n ?n] no
  have 2: "ParsedMessage ?n = map Span (split_lines (msg_text ?n))" by blast
  from ParsedMessage_segments [of ?s ?s] yes
  have 3: "ParsedMessage ?s = concat (map render_part (parts_loop (msg_text ?s)))" by simp
  show ?thesis
    unfolding 1 2 3 by (simp add: parts render_part_def)
qed

end
